theory Spec2Isabelle
  imports Main "HOL-Library.Word" "HOL-Library.Multiset"
begin

section \<open>pdf_converter.py: data model\<close>

text \<open>
  The program renders every page of a PDF in a process pool, sorts what came back by page
  number, writes one image file per page and optionally bundles the files into a ZIP.
  The model is a shallow embedding of \<^verbatim>\<open>src/pdf_converter.py\<close>: the file system and
  the standard output are an explicit state, every exception the code lets escape is an
  error value that carries the state reached, and the three things the code asks of its
  surroundings (PyMuPDF, the scheduler of the pool, the operating system) are fields of
  an environment record.
\<close>

type_synonym bytes = "8 word list"

text \<open>
  A \<^verbatim>\<open>pathlib.Path\<close> that has already been parsed: an anchor (empty for a relative
  path) and the components. \<open>Path [] []\<close> is \<^verbatim>\<open>Path('.')\<close>.
\<close>

datatype path = Path (anchor: string) (parts: "string list")

text \<open>What a file holds: raw bytes, or a ZIP archive as the list of its members in
  the order they were added (member name, member content).\<close>

datatype content = Data bytes | Zip "(string \<times> content) list"

text \<open>The exceptions that the code does not catch.\<close>

datatype exn =
    FileExistsError
  | FileNotFoundError
  | IsADirectoryError
  | PermissionError
  | TypeError
  | ValueError

text \<open>
  What the program prints, one constructor per message (the texts are Korean in the
  source; the payload is what the f-strings interpolate): \<open>MsgInfo\<close> stands for the
  block of lines 75-81, \<open>MsgDone\<close> for the two lines 126-127, every other constructor
  for one \<^verbatim>\<open>print\<close> call. \<open>Progress\<close> is one \<^verbatim>\<open>pbar.update(1)\<close> of the
  conversion loop.
\<close>

datatype event =
    MsgFileNotFound path
  | MsgInfo string nat string int "int option" "int option"
  | MsgOpenFailed string
  | MsgPageFailed nat string
  | Progress
  | MsgDone nat path
  | MsgZipStart
  | MsgZipDone path
  | MsgKept path
  | MsgQualityError
  | MsgDpiLow
  | MsgDpiHigh

record state =
  dirs :: "path set"
  files :: "path \<rightharpoonup> content"
  out :: "event list"

text \<open>
  The surroundings.
  \<^item> \<open>fitz_len p\<close>: lines 71-73, \<^verbatim>\<open>fitz.open(str(p)); len(doc)\<close>: the page count, or
    the text of the exception.
  \<^item> \<open>render p i dpi enc q\<close>: lines 16-31 of \<^verbatim>\<open>convert_page\<close>, opening the document,
    loading page \<open>i\<close>, rasterising at zoom \<open>dpi / 72\<close> and encoding with
    \<^verbatim>\<open>pix.tobytes(enc)\<close> (\<open>q\<close> is the \<^verbatim>\<open>jpg_quality\<close> argument, absent for PNG):
    the encoded bytes, or \<^verbatim>\<open>str(e)\<close> of the exception raised.
  \<^item> \<open>completion_time i\<close>: when the future of page \<open>i\<close> completes;
    \<^verbatim>\<open>as_completed\<close> yields the futures in this order. Every completion order is
    the order of some \<open>completion_time\<close>.
  \<^item> \<open>cpu_count\<close>: \<^verbatim>\<open>os.cpu_count()\<close>.
  \<^item> \<open>denied p\<close>: the operating system refuses to create \<open>p\<close> or to open it for
    writing.
\<close>

record env =
  fitz_len :: "path \<Rightarrow> string + nat"
  render :: "path \<Rightarrow> nat \<Rightarrow> int \<Rightarrow> string \<Rightarrow> int option \<Rightarrow> string + bytes"
  completion_time :: "nat \<Rightarrow> nat"
  cpu_count :: "int option"
  denied :: "path \<Rightarrow> bool"

section \<open>Strings and paths\<close>

text \<open>\<^verbatim>\<open>str.lower\<close> and \<^verbatim>\<open>str.upper\<close> on ASCII letters; other characters are kept.\<close>

definition lower_char :: "char \<Rightarrow> char" where
  "lower_char c =
     (case map_of (zip ''ABCDEFGHIJKLMNOPQRSTUVWXYZ'' ''abcdefghijklmnopqrstuvwxyz'') c of
        None \<Rightarrow> c | Some d \<Rightarrow> d)"

definition upper_char :: "char \<Rightarrow> char" where
  "upper_char c =
     (case map_of (zip ''abcdefghijklmnopqrstuvwxyz'' ''ABCDEFGHIJKLMNOPQRSTUVWXYZ'') c of
        None \<Rightarrow> c | Some d \<Rightarrow> d)"

definition lower :: "string \<Rightarrow> string" where
  "lower s = map lower_char s"

definition upper :: "string \<Rightarrow> string" where
  "upper s = map upper_char s"

text \<open>\<^verbatim>\<open>str(n)\<close> for a non-negative integer: its decimal digits.\<close>

definition digit_char :: "nat \<Rightarrow> char" where
  "digit_char d = ''0123456789'' ! d"

fun digits :: "nat \<Rightarrow> string" where
  "digits n = (if n < 10 then [digit_char n] else digits (n div 10) @ [digit_char (n mod 10)])"

declare digits.simps [simp del]

text \<open>The format specification \<^verbatim>\<open>03d\<close>: the digits, filled with zeros on the left
  up to width 3.\<close>

definition fmt_03d :: "nat \<Rightarrow> string" where
  "fmt_03d n = replicate (3 - length (digits n)) (CHR ''0'') @ digits n"

text \<open>How an f-string shows a value that may be \<^verbatim>\<open>None\<close>.\<close>

definition py_str :: "string option \<Rightarrow> string" where
  "py_str x = (case x of None \<Rightarrow> ''None'' | Some s \<Rightarrow> s)"

text \<open>Truth value of \<^verbatim>\<open>error\<close> in \<^verbatim>\<open>if error:\<close>: \<^verbatim>\<open>None\<close> and the empty string
  are false.\<close>

definition truthy :: "string option \<Rightarrow> bool" where
  "truthy x = (case x of None \<Rightarrow> False | Some s \<Rightarrow> s \<noteq> [])"

text \<open>\<^verbatim>\<open>Path.parent\<close>, \<^verbatim>\<open>Path.name\<close>, \<^verbatim>\<open>Path.stem\<close> (the name up to its last dot,
  when that dot is neither the first nor the last character) and \<^verbatim>\<open>p / name\<close> for a
  single component.\<close>

definition parent :: "path \<Rightarrow> path" where
  "parent p = Path (anchor p) (butlast (parts p))"

definition name :: "path \<Rightarrow> string" where
  "name p = (if parts p = [] then [] else last (parts p))"

fun rfind :: "char \<Rightarrow> string \<Rightarrow> nat option" where
  "rfind c [] = None"
| "rfind c (x # xs) =
     (case rfind c xs of
        Some i \<Rightarrow> Some (Suc i)
      | None \<Rightarrow> if x = c then Some 0 else None)"

definition stem :: "path \<Rightarrow> string" where
  "stem p =
     (let nm = name p in
      case rfind (CHR ''.'') nm of
        None \<Rightarrow> nm
      | Some i \<Rightarrow> if 0 < i \<and> i < length nm - 1 then take i nm else nm)"

definition joinpath :: "path \<Rightarrow> string \<Rightarrow> path" where
  "joinpath p nm = Path (anchor p) (parts p @ [nm])"

section \<open>File system operations\<close>

definition say :: "event list \<Rightarrow> state \<Rightarrow> state" where
  "say es s = s\<lparr>out := out s @ es\<rparr>"

text \<open>\<^verbatim>\<open>Path.exists()\<close>.\<close>

definition exists :: "state \<Rightarrow> path \<Rightarrow> bool" where
  "exists s p \<longleftrightarrow> p \<in> dirs s \<or> files s p \<noteq> None"

text \<open>\<^verbatim>\<open>Path.mkdir(exist_ok=True)\<close>: an existing directory is accepted, an existing
  file is not, and the parent is not created.\<close>

definition mkdir_exist_ok :: "env \<Rightarrow> state \<Rightarrow> path \<Rightarrow> exn + state" where
  "mkdir_exist_ok E s p =
     (if p \<in> dirs s then Inr s
      else if files s p \<noteq> None then Inl FileExistsError
      else if parent p \<notin> dirs s then Inl FileNotFoundError
      else if denied E p then Inl PermissionError
      else Inr (s\<lparr>dirs := insert p (dirs s)\<rparr>))"

text \<open>\<^verbatim>\<open>open(p, 'wb')\<close>: creates the file or truncates it.\<close>

definition open_wb :: "env \<Rightarrow> state \<Rightarrow> path \<Rightarrow> exn + state" where
  "open_wb E s p =
     (if p \<in> dirs s then Inl IsADirectoryError
      else if parent p \<notin> dirs s then Inl FileNotFoundError
      else if denied E p then Inl PermissionError
      else Inr (s\<lparr>files := (files s)(p \<mapsto> Data [])\<rparr>))"

section \<open>convert_page (lines 11-38)\<close>

type_synonym task = "path \<times> nat \<times> int \<times> string \<times> int"

type_synonym page_result = "nat \<times> bytes option \<times> string option \<times> string option"

definition convert_page :: "env \<Rightarrow> task \<Rightarrow> page_result" where
  "convert_page E args =
     (case args of (pdf_path, page_num, dpi, img_format, quality) \<Rightarrow>
        if lower img_format = ''png'' then
          (case render E pdf_path page_num dpi ''png'' None of
             Inr img_data \<Rightarrow> (page_num, Some img_data, Some ''png'', None)
           | Inl e \<Rightarrow> (page_num, None, None, Some e))
        else
          (case render E pdf_path page_num dpi ''jpeg'' (Some quality) of
             Inr img_data \<Rightarrow> (page_num, Some img_data, Some ''jpg'', None)
           | Inl e \<Rightarrow> (page_num, None, None, Some e)))"

section \<open>convert_pdf_to_images (lines 41-143)\<close>

type_synonym entry = "nat \<times> bytes option \<times> string option"

text \<open>Lines 100-108: the body of the loop over the completed futures, and the loop.\<close>

fun collect :: "page_result list \<Rightarrow> entry list \<Rightarrow> state \<Rightarrow> entry list \<times> state" where
  "collect [] results s = (results, s)"
| "collect ((page_num, img_data, ext, error) # rest) results s =
     (if truthy error
      then collect rest results (say [MsgPageFailed (page_num + 1) (py_str error), Progress] s)
      else collect rest (results @ [(page_num, img_data, ext)]) (say [Progress] s))"

text \<open>\<^verbatim>\<open>as_completed\<close>: the futures in the order in which they complete.\<close>

definition as_completed :: "env \<Rightarrow> task list \<Rightarrow> task list" where
  "as_completed E tasks = sort_key (\<lambda>t. completion_time E (fst (snd t))) tasks"

text \<open>Lines 95-108. \<^verbatim>\<open>ProcessPoolExecutor\<close> raises \<^verbatim>\<open>ValueError\<close> for
  \<^verbatim>\<open>max_workers <= 0\<close> and takes its own default for \<^verbatim>\<open>None\<close>. (Its upper limit
  of 61 workers on Windows and the death of a worker process are outside the model: a
  render either returns bytes or raises an \<^verbatim>\<open>Exception\<close>, which \<^verbatim>\<open>convert_page\<close>
  catches.)\<close>

definition run_pool ::
  "env \<Rightarrow> state \<Rightarrow> int option \<Rightarrow> task list \<Rightarrow> (exn + entry list) \<times> state" where
  "run_pool E s max_workers tasks =
     (case max_workers of
        Some w \<Rightarrow>
          if w \<le> 0 then (Inl ValueError, s)
          else (case collect (map (convert_page E) (as_completed E tasks)) [] s of
                  (results, s') \<Rightarrow> (Inr results, s'))
      | None \<Rightarrow>
          (case collect (map (convert_page E) (as_completed E tasks)) [] s of
             (results, s') \<Rightarrow> (Inr results, s')))"

text \<open>Line 118: the file name of a page.\<close>

definition page_filename :: "nat \<Rightarrow> string option \<Rightarrow> string" where
  "page_filename page_num ext = ''page_'' @ fmt_03d (page_num + 1) @ ''.'' @ py_str ext"

text \<open>Lines 117-124: the loop that writes the files. \<^verbatim>\<open>f.write(None)\<close> raises
  \<^verbatim>\<open>TypeError\<close> after \<^verbatim>\<open>open\<close> has created the file.\<close>

fun write_pages ::
  "env \<Rightarrow> state \<Rightarrow> path \<Rightarrow> string option \<Rightarrow> entry list \<Rightarrow> path list
     \<Rightarrow> (exn + path list) \<times> state" where
  "write_pages E s output_dir ext [] saved_files = (Inr saved_files, s)"
| "write_pages E s output_dir ext ((page_num, img_data, _) # rest) saved_files =
     (let filepath = joinpath output_dir (page_filename page_num ext) in
      case open_wb E s filepath of
        Inl e \<Rightarrow> (Inl e, s)
      | Inr s1 \<Rightarrow>
          (case img_data of
             None \<Rightarrow> (Inl TypeError, s1)
           | Some d \<Rightarrow>
               write_pages E (s1\<lparr>files := (files s1)(filepath \<mapsto> Data d)\<rparr>) output_dir ext rest
                 (saved_files @ [filepath])))"

text \<open>Line 115, \<^verbatim>\<open>results[0][2] if results else 'jpg'\<close>: the extension recorded in the
  first entry, or \<^verbatim>\<open>jpg\<close> when there is no entry.\<close>

definition chosen_ext :: "entry list \<Rightarrow> string option" where
  "chosen_ext results = (case results of [] \<Rightarrow> Some ''jpg'' | r # _ \<Rightarrow> snd (snd r))"

text \<open>Lines 114-124: the extension is chosen once, then the files are written.\<close>

definition save_images ::
  "env \<Rightarrow> state \<Rightarrow> path \<Rightarrow> entry list \<Rightarrow> (exn + path list) \<times> state" where
  "save_images E s output_dir results =
     (let ext = chosen_ext results
      in write_pages E s output_dir ext results [])"

text \<open>Lines 135-136: \<^verbatim>\<open>zipf.write(file, file.name)\<close> for each saved file. \<open>ms\<close> are
  the members added so far; the archive on disk holds them. A directory is stored as an
  empty member whose name ends in a slash, a missing file makes \<^verbatim>\<open>os.stat\<close> raise.\<close>

fun zip_members ::
  "state \<Rightarrow> path \<Rightarrow> (string \<times> content) list \<Rightarrow> path list \<Rightarrow> (exn + unit) \<times> state" where
  "zip_members s zip_path ms [] = (Inr (), s)"
| "zip_members s zip_path ms (file # rest) =
     (if file \<in> dirs s then
        zip_members (s\<lparr>files := (files s)(zip_path \<mapsto> Zip (ms @ [(name file @ ''/'', Data [])]))\<rparr>)
          zip_path (ms @ [(name file @ ''/'', Data [])]) rest
      else
        (case files s file of
           None \<Rightarrow> (Inl FileNotFoundError, s)
         | Some c \<Rightarrow>
             zip_members (s\<lparr>files := (files s)(zip_path \<mapsto> Zip (ms @ [(name file, c)]))\<rparr>)
               zip_path (ms @ [(name file, c)]) rest))"

text \<open>Lines 134-136: \<^verbatim>\<open>zipfile.ZipFile(zip_path, 'w', ...)\<close> creates or truncates the
  archive, then the members are added.\<close>

definition write_zip :: "env \<Rightarrow> state \<Rightarrow> path \<Rightarrow> path list \<Rightarrow> (exn + unit) \<times> state" where
  "write_zip E s zip_path saved_files =
     (case open_wb E s zip_path of
        Inl e \<Rightarrow> (Inl e, s)
      | Inr s1 \<Rightarrow>
          zip_members (s1\<lparr>files := (files s1)(zip_path \<mapsto> Zip [])\<rparr>) zip_path [] saved_files)"

definition default_output_dir :: "path \<Rightarrow> path" where
  "default_output_dir pdf_path = joinpath (parent pdf_path) (stem pdf_path @ ''_images'')"

definition zip_path_of :: "path \<Rightarrow> path" where
  "zip_path_of pdf_path = joinpath (parent pdf_path) (stem pdf_path @ ''_images.zip'')"

definition build_tasks :: "path \<Rightarrow> nat \<Rightarrow> int \<Rightarrow> string \<Rightarrow> int \<Rightarrow> task list" where
  "build_tasks pdf_path num_pages dpi img_format quality =
     map (\<lambda>i. (pdf_path, i, dpi, img_format, quality)) [0..<num_pages]"

text \<open>Lines 129-143, after the files have been written.\<close>

definition archive_stage ::
  "env \<Rightarrow> state \<Rightarrow> path \<Rightarrow> path \<Rightarrow> bool \<Rightarrow> path list \<Rightarrow> (exn + bool) \<times> state" where
  "archive_stage E s pdf_path output_dir create_zip saved_files =
     (if create_zip \<and> saved_files \<noteq> [] then
        (case write_zip E (say [MsgZipStart] s) (zip_path_of pdf_path) saved_files of
           (Inl e, s') \<Rightarrow> (Inl e, s')
         | (Inr _, s') \<Rightarrow>
             (Inr True, say [MsgZipDone (zip_path_of pdf_path), MsgKept output_dir] s'))
      else (Inr True, s))"

text \<open>Lines 87-143, once the page count is known.\<close>

definition convert_pages ::
  "env \<Rightarrow> state \<Rightarrow> path \<Rightarrow> path \<Rightarrow> string \<Rightarrow> int \<Rightarrow> int \<Rightarrow> bool \<Rightarrow> int option \<Rightarrow> nat
     \<Rightarrow> (exn + bool) \<times> state" where
  "convert_pages E s pdf_path output_dir img_format dpi quality create_zip num_workers num_pages =
     (let num_workers' = (case num_workers of None \<Rightarrow> cpu_count E | Some w \<Rightarrow> Some w);
          tasks = build_tasks pdf_path num_pages dpi img_format quality
      in case run_pool E s num_workers' tasks of
           (Inl e, s1) \<Rightarrow> (Inl e, s1)
         | (Inr results, s1) \<Rightarrow>
             (case save_images E s1 output_dir (sort_key fst results) of
                (Inl e, s2) \<Rightarrow> (Inl e, s2)
              | (Inr saved_files, s2) \<Rightarrow>
                  archive_stage E (say [MsgDone (length saved_files) output_dir] s2)
                    pdf_path output_dir create_zip saved_files))"

text \<open>The whole function. \<^verbatim>\<open>num_workers or os.cpu_count()\<close> of the information
  message takes the CPU count for \<^verbatim>\<open>None\<close> and for 0.\<close>

definition convert_pdf_to_images ::
  "env \<Rightarrow> state \<Rightarrow> path \<Rightarrow> path option \<Rightarrow> string \<Rightarrow> int \<Rightarrow> int \<Rightarrow> bool \<Rightarrow> int option
     \<Rightarrow> (exn + bool) \<times> state" where
  "convert_pdf_to_images E s pdf_path output_dir img_format dpi quality create_zip num_workers =
     (if \<not> exists s pdf_path then (Inr False, say [MsgFileNotFound pdf_path] s)
      else
        let output_dir' = (case output_dir of None \<Rightarrow> default_output_dir pdf_path | Some d \<Rightarrow> d)
        in case mkdir_exist_ok E s output_dir' of
             Inl e \<Rightarrow> (Inl e, s)
           | Inr s1 \<Rightarrow>
               (case fitz_len E pdf_path of
                  Inl e \<Rightarrow> (Inr False, say [MsgOpenFailed e] s1)
                | Inr num_pages \<Rightarrow>
                    convert_pages E
                      (say [MsgInfo (name pdf_path) num_pages (upper img_format) dpi
                              (if lower img_format = ''jpeg'' then Some quality else None)
                              (case num_workers of
                                 None \<Rightarrow> cpu_count E
                               | Some w \<Rightarrow> if w = 0 then cpu_count E else Some w)] s1)
                      pdf_path output_dir' img_format dpi quality create_zip num_workers
                      num_pages))"

section \<open>main (lines 146-198)\<close>

text \<open>The parsed command line, \<^verbatim>\<open>args.pdf_file\<close> to \<^verbatim>\<open>args.workers\<close>:
  \<^verbatim>\<open>argparse\<close> has converted the numbers and restricted the format to \<^verbatim>\<open>jpeg\<close>
  or \<^verbatim>\<open>png\<close>.\<close>

record args =
  arg_pdf_file :: path
  arg_output :: "path option"
  arg_format :: string
  arg_dpi :: int
  arg_quality :: int
  arg_no_zip :: bool
  arg_workers :: "int option"

text \<open>The exit status and the final state. An exception that nothing catches ends the
  interpreter with status 1.\<close>

definition main :: "env \<Rightarrow> state \<Rightarrow> args \<Rightarrow> nat \<times> state" where
  "main E s a =
     (if arg_quality a < 1 \<or> arg_quality a > 100 then (1, say [MsgQualityError] s)
      else
        let s1 = (if arg_dpi a < 72 then say [MsgDpiLow] s
                  else if arg_dpi a > 600 then say [MsgDpiHigh] s
                  else s)
        in case convert_pdf_to_images E s1 (arg_pdf_file a) (arg_output a) (arg_format a) (arg_dpi a)
                  (arg_quality a) (\<not> arg_no_zip a) (arg_workers a) of
             (Inr success, s') \<Rightarrow> ((if success then 0 else 1), s')
           | (Inl e, s') \<Rightarrow> (1, s'))"

section \<open>Notions used in the statements\<close>

text \<open>What the collecting loop does with one result of \<^verbatim>\<open>convert_page\<close>: whether
  it is kept, the entry that is kept, and what is printed.\<close>

definition kept :: "page_result \<Rightarrow> bool" where
  "kept r \<longleftrightarrow> \<not> truthy (snd (snd (snd r)))"

definition entry_of :: "page_result \<Rightarrow> entry" where
  "entry_of r = (fst r, fst (snd r), fst (snd (snd r)))"

definition events_of :: "page_result \<Rightarrow> event list" where
  "events_of r =
     (if kept r then [Progress]
      else [MsgPageFailed (fst r + 1) (py_str (snd (snd (snd r)))), Progress])"

text \<open>The same for page \<open>i\<close> of a run with the given parameters.\<close>

definition page_result_of :: "env \<Rightarrow> path \<Rightarrow> int \<Rightarrow> string \<Rightarrow> int \<Rightarrow> nat \<Rightarrow> page_result" where
  "page_result_of E pdf_path dpi img_format quality i =
     convert_page E (pdf_path, i, dpi, img_format, quality)"

definition page_ok :: "env \<Rightarrow> path \<Rightarrow> int \<Rightarrow> string \<Rightarrow> int \<Rightarrow> nat \<Rightarrow> bool" where
  "page_ok E pdf_path dpi img_format quality i \<longleftrightarrow>
     kept (page_result_of E pdf_path dpi img_format quality i)"

definition page_entry :: "env \<Rightarrow> path \<Rightarrow> int \<Rightarrow> string \<Rightarrow> int \<Rightarrow> nat \<Rightarrow> entry" where
  "page_entry E pdf_path dpi img_format quality i =
     entry_of (page_result_of E pdf_path dpi img_format quality i)"

text \<open>The entries handed to the writer: lines 95-111, the pool followed by the sort.\<close>

definition sequenced ::
  "env \<Rightarrow> state \<Rightarrow> int option \<Rightarrow> task list \<Rightarrow> exn + entry list" where
  "sequenced E s max_workers tasks =
     (case run_pool E s max_workers tasks of
        (Inl e, _) \<Rightarrow> Inl e
      | (Inr results, _) \<Rightarrow> Inr (sort_key fst results))"

text \<open>Reading a decimal numeral back.\<close>

definition digit_value :: "char \<Rightarrow> nat" where
  "digit_value c = (case map_of (zip ''0123456789'' [0..<10]) c of None \<Rightarrow> 0 | Some d \<Rightarrow> d)"

definition dec_value :: "string \<Rightarrow> nat" where
  "dec_value cs = foldl (\<lambda>a c. 10 * a + digit_value c) 0 cs"

definition progress_count :: "state \<Rightarrow> nat" where
  "progress_count s = length (filter (\<lambda>e. e = Progress) (out s))"

text \<open>The extension that \<^verbatim>\<open>convert_page\<close> records for a rendered page, and the bytes
  of page \<open>i\<close> (empty when the result carries none).\<close>

definition format_ext :: "string \<Rightarrow> string" where
  "format_ext img_format = (if lower img_format = ''png'' then ''png'' else ''jpg'')"

definition page_data :: "env \<Rightarrow> path \<Rightarrow> int \<Rightarrow> string \<Rightarrow> int \<Rightarrow> nat \<Rightarrow> bytes" where
  "page_data E pdf_path dpi img_format quality i =
     (case fst (snd (page_result_of E pdf_path dpi img_format quality i)) of
        None \<Rightarrow> [] | Some d \<Rightarrow> d)"

text \<open>The output directory that line 62-65 choose.\<close>

definition chosen_output_dir :: "path \<Rightarrow> path option \<Rightarrow> path" where
  "chosen_output_dir pdf_path output_dir =
     (case output_dir of None \<Rightarrow> default_output_dir pdf_path | Some d \<Rightarrow> d)"

text \<open>The state in which \<^verbatim>\<open>main\<close> calls \<^verbatim>\<open>convert_pdf_to_images\<close>: a warning may
  have been printed for the resolution.\<close>

definition after_dpi_check :: "args \<Rightarrow> state \<Rightarrow> state" where
  "after_dpi_check a s =
     (if arg_dpi a < 72 then say [MsgDpiLow] s
      else if arg_dpi a > 600 then say [MsgDpiHigh] s
      else s)"

text \<open>The pool can be created: the worker count that reaches \<^verbatim>\<open>ProcessPoolExecutor\<close>
  is absent or at least 1.\<close>

definition pool_size_ok :: "env \<Rightarrow> int option \<Rightarrow> bool" where
  "pool_size_ok E num_workers =
     (case (case num_workers of None \<Rightarrow> cpu_count E | Some w \<Rightarrow> Some w) of
        None \<Rightarrow> True | Some w \<Rightarrow> 1 \<le> w)"

text \<open>\<^verbatim>\<open>mkdir(exist_ok=True)\<close> succeeds on \<open>p\<close>: it is a directory already, or nothing
  is there, its parent is a directory and the operating system allows it.\<close>

definition can_mkdir :: "env \<Rightarrow> state \<Rightarrow> path \<Rightarrow> bool" where
  "can_mkdir E s p \<longleftrightarrow>
     p \<in> dirs s \<or> (files s p = None \<and> parent p \<in> dirs s \<and> \<not> denied E p)"

text \<open>\<^verbatim>\<open>open(p, 'wb')\<close> succeeds on \<open>p\<close> when the directories are \<open>D\<close>: the conditions
  of \<open>open_wb\<close>.\<close>

definition writable :: "env \<Rightarrow> path set \<Rightarrow> path \<Rightarrow> bool" where
  "writable E D p \<longleftrightarrow> p \<notin> D \<and> parent p \<in> D \<and> \<not> denied E p"

text \<open>Page \<open>i\<close> is successful: its result carries the rendered bytes.\<close>

definition page_rendered :: "env \<Rightarrow> path \<Rightarrow> int \<Rightarrow> string \<Rightarrow> int \<Rightarrow> nat \<Rightarrow> bool" where
  "page_rendered E pdf_path dpi img_format quality i \<longleftrightarrow>
     fst (snd (page_result_of E pdf_path dpi img_format quality i)) \<noteq> None"

text \<open>
  Nothing fails up to the end of the writing loop, for a document of \<open>P\<close> pages and the
  output directory \<open>od\<close>: the source exists, the directory exists or can be created, the
  pool can be created, and every page whose result is kept carries bytes and has a file
  that can be opened for writing once the directory is there.
\<close>

definition writes_complete ::
  "env \<Rightarrow> state \<Rightarrow> path \<Rightarrow> path \<Rightarrow> string \<Rightarrow> int \<Rightarrow> int \<Rightarrow> int option \<Rightarrow> nat \<Rightarrow> bool" where
  "writes_complete E s pdf_path od img_format dpi quality num_workers P \<longleftrightarrow>
     exists s pdf_path \<and> can_mkdir E s od \<and> pool_size_ok E num_workers \<and>
     (\<forall>i < P. page_ok E pdf_path dpi img_format quality i \<longrightarrow>
        page_rendered E pdf_path dpi img_format quality i \<and>
        writable E (insert od (dirs s))
          (joinpath od (page_filename i (Some (format_ext img_format)))))"

text \<open>The archive is not needed or can be created: archiving is off, or no page is kept,
  or the path of the archive can be opened for writing.\<close>

definition archive_possible ::
  "env \<Rightarrow> state \<Rightarrow> path \<Rightarrow> path \<Rightarrow> string \<Rightarrow> int \<Rightarrow> int \<Rightarrow> bool \<Rightarrow> nat \<Rightarrow> bool" where
  "archive_possible E s pdf_path od img_format dpi quality create_zip P \<longleftrightarrow>
     (create_zip \<and> filter (page_ok E pdf_path dpi img_format quality) [0..<P] \<noteq> []
        \<longrightarrow> writable E (insert od (dirs s)) (zip_path_of pdf_path))"

text \<open>What the conversion loop prints for a list of tasks, and the information message
  of lines 75-81.\<close>

definition pool_events :: "env \<Rightarrow> task list \<Rightarrow> event list" where
  "pool_events E tasks = concat (map events_of (map (convert_page E) (as_completed E tasks)))"

definition info_message ::
  "env \<Rightarrow> path \<Rightarrow> string \<Rightarrow> int \<Rightarrow> int \<Rightarrow> int option \<Rightarrow> nat \<Rightarrow> event" where
  "info_message E pdf_path img_format dpi quality num_workers num_pages =
     MsgInfo (name pdf_path) num_pages (upper img_format) dpi
       (if lower img_format = ''jpeg'' then Some quality else None)
       (case num_workers of
          None \<Rightarrow> cpu_count E
        | Some w \<Rightarrow> if w = 0 then cpu_count E else Some w)"

section \<open>Sample runs\<close>

text \<open>
  A document \<^verbatim>\<open>doc.pdf\<close> in the current directory, which holds nothing else. The
  sample environment has \<open>P\<close> pages; page \<open>i\<close> renders to the one byte \<open>i\<close> unless
  \<open>fails i\<close> gives the text of an exception; the pages complete in descending order.
\<close>

definition sample_pdf :: path where
  "sample_pdf = Path [] [''doc.pdf'']"

definition sample_state :: state where
  "sample_state = \<lparr>dirs = {Path [] []}, files = [sample_pdf \<mapsto> Data []], out = []\<rparr>"

definition sample_env :: "nat \<Rightarrow> (nat \<Rightarrow> string option) \<Rightarrow> (path \<Rightarrow> bool) \<Rightarrow> env" where
  "sample_env P fails deny =
     \<lparr>fitz_len = (\<lambda>p. if p = sample_pdf then Inr P else Inl ''cannot open''),
      render = (\<lambda>p i d enc q. case fails i of Some m \<Rightarrow> Inl m | None \<Rightarrow> Inr [of_nat i]),
      completion_time = (\<lambda>i. P - i),
      cpu_count = Some 4,
      denied = deny\<rparr>"

definition sample_args :: args where
  "sample_args =
     \<lparr>arg_pdf_file = sample_pdf, arg_output = None, arg_format = ''jpeg'', arg_dpi = 150,
      arg_quality = 85, arg_no_zip = False, arg_workers = Some 2\<rparr>"

definition no_failure :: "nat \<Rightarrow> string option" where
  "no_failure i = None"

definition fails_at :: "nat \<Rightarrow> string \<Rightarrow> nat \<Rightarrow> string option" where
  "fails_at k msg i = (if i = k then Some msg else None)"

definition nothing_denied :: "path \<Rightarrow> bool" where
  "nothing_denied p = False"

definition only_denied :: "path \<Rightarrow> path \<Rightarrow> bool" where
  "only_denied q p \<longleftrightarrow> p = q"

section \<open>The pool and the ordering pass\<close>

lemma say_say: "say a (say b s) = say (b @ a) s"
  by (simp add: say_def)

lemma say_Nil: "say [] s = s"
  by (simp add: say_def)

lemma say_fields: "dirs (say es s) = dirs s" "files (say es s) = files s" "out (say es s) = out s @ es"
  by (simp_all add: say_def)

lemma collect_eq:
  "collect prs acc s = (acc @ map entry_of (filter kept prs), say (concat (map events_of prs)) s)"
proof (induction prs arbitrary: acc s)
  case Nil
  show ?case by (simp add: say_Nil)
next
  case (Cons r prs)
  obtain n d x e where r: "r = (n, d, x, e)" by (cases r) auto
  show ?case
    by (simp add: r Cons.IH kept_def entry_of_def events_of_def say_say)
qed

lemma fst_convert_page: "fst (convert_page E (p, i, d, f, q)) = i"
  by (simp add: convert_page_def split: sum.splits)

lemma sort_key_distinct_eq:
  assumes d: "distinct (map f xs)" and m: "mset ys = mset xs" and s: "sorted (map f ys)"
  shows "sort_key f xs = ys"
proof (rule properties_for_sort_key [OF m _ s])
  fix k assume k: "k \<in> set ys"
  have sx: "set xs = set ys" using m by (metis set_mset_mset)
  have inj: "inj_on f (set xs)" using d by (simp add: distinct_map)
  have key: "filter (\<lambda>x. f k = f x) zs = filter (\<lambda>x. k = x) zs" if "set zs = set ys" for zs
    using inj k sx that by (intro filter_cong) (auto dest: inj_onD)
  have "filter (\<lambda>x. k = x) ys = replicate (count (mset ys) k) k"
    by (simp add: replicate_count_mset_eq_filter_eq)
  also have "\<dots> = filter (\<lambda>x. k = x) xs"
    by (simp add: m replicate_count_mset_eq_filter_eq)
  finally show "filter (\<lambda>x. f k = f x) ys = filter (\<lambda>x. f k = f x) xs"
    by (simp add: key sx)
qed

lemma fst_page_entry: "fst (page_entry E p d f q i) = i"
  by (simp add: page_entry_def page_result_of_def entry_of_def fst_convert_page)

lemma pool_entries_mset:
  "mset (map entry_of (filter kept (map (convert_page E) (as_completed E (build_tasks p P d f q)))))
   = mset (map (page_entry E p d f q) (filter (page_ok E p d f q) [0..<P]))"
proof -
  have "mset (as_completed E (build_tasks p P d f q)) = mset (build_tasks p P d f q)"
    by (simp add: as_completed_def)
  then have "mset (map entry_of (filter kept (map (convert_page E) (as_completed E (build_tasks p P d f q)))))
    = mset (map entry_of (filter kept (map (convert_page E) (build_tasks p P d f q))))"
    by (metis mset_filter mset_map)
  also have "map entry_of (filter kept (map (convert_page E) (build_tasks p P d f q)))
    = map (page_entry E p d f q) (filter (page_ok E p d f q) [0..<P])"
  proof -
    have e: "page_entry E p d f q = (\<lambda>i. entry_of (convert_page E (p, i, d, f, q)))"
      by (rule ext) (simp add: page_entry_def page_result_of_def)
    have k: "page_ok E p d f q = (\<lambda>i. kept (convert_page E (p, i, d, f, q)))"
      by (rule ext) (simp add: page_ok_def page_result_of_def)
    show ?thesis
      by (simp add: build_tasks_def filter_map o_def e k)
  qed
  finally show ?thesis .
qed

lemma map_fst_page_entry:
  "map fst (map (page_entry E p d f q) xs) = xs"
  by (induction xs) (simp_all add: fst_page_entry)

lemma sorted_pool_entries:
  "sort_key fst (map entry_of (filter kept (map (convert_page E) (as_completed E (build_tasks p P d f q)))))
   = map (page_entry E p d f q) (filter (page_ok E p d f q) [0..<P])"
proof (rule sort_key_distinct_eq)
  show "mset (map (page_entry E p d f q) (filter (page_ok E p d f q) [0..<P]))
    = mset (map entry_of (filter kept (map (convert_page E) (as_completed E (build_tasks p P d f q)))))"
    by (simp only: pool_entries_mset)
  show "sorted (map fst (map (page_entry E p d f q) (filter (page_ok E p d f q) [0..<P])))"
    by (simp only: map_fst_page_entry) (simp add: sorted_wrt_filter)
  have "distinct (map fst (map (page_entry E p d f q) (filter (page_ok E p d f q) [0..<P])))"
    by (simp only: map_fst_page_entry) simp
  moreover have "mset (map fst (map entry_of (filter kept (map (convert_page E) (as_completed E (build_tasks p P d f q))))))
     = mset (map fst (map (page_entry E p d f q) (filter (page_ok E p d f q) [0..<P])))"
    using pool_entries_mset [of E p P d f q] by (metis mset_map)
  ultimately show "distinct (map fst (map entry_of (filter kept (map (convert_page E) (as_completed E (build_tasks p P d f q))))))"
    by (metis mset_eq_imp_distinct_iff)
qed

lemma run_pool_eq:
  assumes "case w of None \<Rightarrow> True | Some k \<Rightarrow> 1 \<le> k"
  shows "run_pool E s w tasks =
    (Inr (map entry_of (filter kept (map (convert_page E) (as_completed E tasks)))),
     say (concat (map events_of (map (convert_page E) (as_completed E tasks)))) s)"
  using assms by (auto simp: run_pool_def collect_eq split: option.splits)

lemma run_pool_bad:
  "k \<le> 0 \<Longrightarrow> run_pool E s (Some k) tasks = (Inl ValueError, s)"
  by (simp add: run_pool_def)

lemma progress_events_of: "length (filter (\<lambda>e. e = Progress) (events_of r)) = 1"
  by (simp add: events_of_def)

lemma progress_concat:
  "length (filter (\<lambda>e. e = Progress) (concat (map events_of rs))) = length rs"
  by (induction rs) (simp_all add: progress_events_of)


text \<open>
  C1, as the code has it. For every page count \<open>P\<close>, every worker count \<open>W \<ge> 1\<close> and every
  completion order (every \<open>completion_time\<close> of the environment), the pool does not raise and
  the entries after the sort are those of the pages whose result is kept, in ascending page
  order without duplicates: as many entries as \<open>P\<close> minus the number of pages reported as
  failed. Sorting them again changes nothing.
\<close>

theorem sequenced_entries:
  assumes "1 \<le> W"
  shows "\<exists>rs. sequenced E s (Some W) (build_tasks p P d f q) = Inr rs
    \<and> rs = map (page_entry E p d f q) (filter (page_ok E p d f q) [0..<P])
    \<and> map fst rs = filter (page_ok E p d f q) [0..<P]
    \<and> sorted (map fst rs) \<and> distinct (map fst rs)
    \<and> length rs + length (filter (\<lambda>i. \<not> page_ok E p d f q i) [0..<P]) = P
    \<and> sort_key fst rs = rs"
proof -
  let ?rs = "map (page_entry E p d f q) (filter (page_ok E p d f q) [0..<P])"
  have run: "sequenced E s (Some W) (build_tasks p P d f q) = Inr ?rs"
    using assms by (simp add: sequenced_def run_pool_eq sorted_pool_entries)
  have keys: "map fst ?rs = filter (page_ok E p d f q) [0..<P]"
    by (simp only: map_fst_page_entry)
  have srt: "sorted (map fst ?rs)" and dst: "distinct (map fst ?rs)"
    by (simp_all only: keys) (simp_all add: sorted_wrt_filter)
  have len: "length ?rs + length (filter (\<lambda>i. \<not> page_ok E p d f q i) [0..<P]) = P"
    using sum_length_filter_compl [of "page_ok E p d f q" "[0..<P]"] by simp
  have idem: "sort_key fst ?rs = ?rs"
    using srt by (rule sort_key_id_if_sorted)
  show ?thesis
    using run keys srt dst len idem by blast
qed

lemmas sample_simps = sample_env_def sample_state_def sample_args_def sample_pdf_def
  no_failure_def fails_at_def nothing_denied_def only_denied_def

text \<open>Three pages, two workers, page 2 (index 1) fails, completion in descending order.\<close>

theorem sequenced_entries_witness:
  "(1::int) \<le> 2
   \<and> sequenced (sample_env 3 (fails_at 1 ''boom'') nothing_denied) sample_state (Some 2)
        (build_tasks sample_pdf 3 150 ''jpeg'' 85)
       = Inr [(0, Some [0], Some ''jpg''), (2, Some [2], Some ''jpg'')]"
  using sequenced_entries [of 2 "sample_env 3 (fails_at 1 ''boom'') nothing_denied" sample_state
      sample_pdf 3 150 "''jpeg''" 85]
  by (simp add: page_entry_def page_ok_def page_result_of_def kept_def entry_of_def truthy_def
      convert_page_def lower_def lower_char_def sample_simps upt_conv_Cons)

text \<open>
  C1 as stated fails: a failed page is printed and not appended (lines 103-106), so a
  document of two pages whose first page fails leaves one entry after the sort, not two.
\<close>

theorem sequenced_drops_failed_page:
  "sequenced (sample_env 2 (fails_at 0 ''boom'') nothing_denied) sample_state (Some 1)
     (build_tasks sample_pdf 2 150 ''jpeg'' 85)
   = Inr [(1, Some [1], Some ''jpg'')]"
  by (simp add: sequenced_def run_pool_def as_completed_def build_tasks_def convert_page_def
      truthy_def lower_def lower_char_def say_def sample_simps upt_conv_Cons)

section \<open>Rejected quality values\<close>

text \<open>
  C9. A quality below 1 or above 100 ends the program with exit status 1 before anything
  else happens: the only effect is the error message, so no directory is created, no
  file is written and no page is rendered (no progress event).
\<close>

theorem quality_out_of_range_rejected:
  assumes "arg_quality a < 1 \<or> arg_quality a > 100"
  shows "main E s a = (1, say [MsgQualityError] s)
    \<and> dirs (snd (main E s a)) = dirs s
    \<and> files (snd (main E s a)) = files s
    \<and> out (snd (main E s a)) = out s @ [MsgQualityError]"
  using assms by (auto simp: main_def say_def)

text \<open>Quality 0 and quality 101 on the sample document.\<close>

theorem quality_out_of_range_rejected_witness:
  "(arg_quality (sample_args\<lparr>arg_quality := 0\<rparr>) < 1 \<or> arg_quality (sample_args\<lparr>arg_quality := 0\<rparr>) > 100)
   \<and> main (sample_env 5 no_failure nothing_denied) sample_state (sample_args\<lparr>arg_quality := 0\<rparr>)
       = (1, \<lparr>dirs = {Path [] []}, files = [sample_pdf \<mapsto> Data []], out = [MsgQualityError]\<rparr>)
   \<and> fst (main (sample_env 5 no_failure nothing_denied) sample_state (sample_args\<lparr>arg_quality := 101\<rparr>)) = 1"
  using quality_out_of_range_rejected [of "sample_args\<lparr>arg_quality := 0\<rparr>"
      "sample_env 5 no_failure nothing_denied" sample_state]
    quality_out_of_range_rejected [of "sample_args\<lparr>arg_quality := 101\<rparr>"
      "sample_env 5 no_failure nothing_denied" sample_state]
  by (simp add: say_def sample_state_def sample_args_def)

section \<open>Page numbers in file names\<close>

lemma digit_value_digit_char: "d < 10 \<Longrightarrow> digit_value (digit_char d) = d"
proof -
  assume "d < 10"
  then have "d \<in> {0, 1, 2, 3, 4, 5, 6, 7, 8, 9}" by auto
  then show ?thesis
    by (auto simp: digit_value_def digit_char_def upt_conv_Cons)
qed

lemma dec_value_snoc: "dec_value (cs @ [c]) = 10 * dec_value cs + digit_value c"
  by (simp add: dec_value_def)

lemma dec_value_digits: "dec_value (digits n) = n"
proof (induction n rule: digits.induct)
  case (1 n)
  show ?case
  proof (cases "n < 10")
    case True
    then show ?thesis
      by (subst digits.simps) (simp add: dec_value_def digit_value_digit_char)
  next
    case False
    then show ?thesis
      using "1.IH" by (subst digits.simps) (simp add: dec_value_snoc digit_value_digit_char)
  qed
qed

lemma dec_value_zeros: "dec_value (replicate k (CHR ''0'') @ cs) = dec_value cs"
proof -
  have z: "digit_value (CHR ''0'') = 0"
    by (simp add: digit_value_def upt_conv_Cons)
  have "foldl (\<lambda>a c. 10 * a + digit_value c) 0 (replicate k (CHR ''0'')) = 0"
    by (induction k) (simp_all add: z)
  then show ?thesis by (simp add: dec_value_def)
qed

lemma dec_value_fmt_03d: "dec_value (fmt_03d n) = n"
  by (simp add: fmt_03d_def dec_value_zeros dec_value_digits)


lemma digit_char_in: "d < 10 \<Longrightarrow> digit_char d \<in> set ''0123456789''"
  unfolding digit_char_def by (rule nth_mem) simp

lemma digits_are_digits: "set (digits n) \<subseteq> set ''0123456789''"
proof (induction n rule: digits.induct)
  case (1 n)
  show ?case
  proof (cases "n < 10")
    case True
    then show ?thesis
      using digit_char_in [of n] by (subst digits.simps) simp
  next
    case False
    then show ?thesis
      using "1.IH" digit_char_in [of "n mod 10"] by (subst digits.simps) simp
  qed
qed

lemma fmt_03d_are_digits: "set (fmt_03d n) \<subseteq> set ''0123456789''"
  using digits_are_digits [of n] by (auto simp: fmt_03d_def)

lemma fmt_03d_inj: "fmt_03d m = fmt_03d n \<Longrightarrow> m = n"
  by (metis dec_value_fmt_03d)

lemma page_filename_inj: "page_filename m x = page_filename n x \<Longrightarrow> m = n"
  using fmt_03d_inj [of "m + 1" "n + 1"] by (simp add: page_filename_def)

lemma joinpath_inj: "joinpath p a = joinpath q b \<Longrightarrow> a = b"
  by (simp add: joinpath_def)

lemma name_joinpath: "name (joinpath p a) = a"
  by (simp add: name_def joinpath_def)

lemma parent_joinpath: "parent (joinpath p a) = p"
  by (simp add: parent_def joinpath_def)

lemma page_path_inj: "joinpath p (page_filename m x) = joinpath p (page_filename n x) \<Longrightarrow> m = n"
  by (blast dest: joinpath_inj page_filename_inj)

lemma last_page_filename:
  "x = ''jpg'' \<or> x = ''png'' \<Longrightarrow> last (page_filename n (Some x)) = CHR ''g''"
  by (auto simp: page_filename_def py_str_def)

lemma page_path_not_zip:
  assumes "x = ''jpg'' \<or> x = ''png''"
  shows "joinpath p (page_filename n (Some x)) \<noteq> zip_path_of q"
proof
  assume "joinpath p (page_filename n (Some x)) = zip_path_of q"
  then have "page_filename n (Some x) = stem q @ ''_images.zip''"
    unfolding zip_path_of_def by (rule joinpath_inj)
  then have "last (page_filename n (Some x)) = last (stem q @ ''_images.zip'')" by simp
  then show False using last_page_filename [OF assms, of n] by simp
qed

section \<open>The writing loop\<close>

lemma open_wb_Inr:
  "open_wb E s p = Inr s1 \<Longrightarrow>
     s1 = s\<lparr>files := (files s)(p \<mapsto> Data [])\<rparr> \<and> p \<notin> dirs s \<and> parent p \<in> dirs s \<and> \<not> denied E p"
  by (simp add: open_wb_def split: if_splits)

lemma open_wb_files_irrelevant:
  "open_wb E (s\<lparr>files := f\<rparr>) p = Inl e \<longleftrightarrow> open_wb E s p = Inl e"
  by (simp add: open_wb_def)

declare write_pages.simps(2) [simp del]

lemma write_pages_Cons:
  "write_pages E s od ext ((n, dat, x) # rs) sv =
     (case open_wb E s (joinpath od (page_filename n ext)) of
        Inl e \<Rightarrow> (Inl e, s)
      | Inr s1 \<Rightarrow>
          (case dat of
             None \<Rightarrow> (Inl TypeError, s\<lparr>files := (files s)(joinpath od (page_filename n ext) \<mapsto> Data [])\<rparr>)
           | Some d \<Rightarrow>
               write_pages E (s\<lparr>files := (files s)(joinpath od (page_filename n ext) \<mapsto> Data d)\<rparr>)
                 od ext rs (sv @ [joinpath od (page_filename n ext)])))"
proof (cases "open_wb E s (joinpath od (page_filename n ext))")
  case (Inl e)
  show ?thesis unfolding write_pages.simps(2) Let_def Inl by simp
next
  case (Inr s1)
  from open_wb_Inr [OF Inr] have s1: "s1 = s\<lparr>files := (files s)(joinpath od (page_filename n ext) \<mapsto> Data [])\<rparr>"
    by simp
  show ?thesis
  proof (cases dat)
    case None
    show ?thesis unfolding None write_pages.simps(2) Let_def Inr by (simp add: s1)
  next
    case (Some d)
    show ?thesis unfolding Some write_pages.simps(2) Let_def Inr by (simp add: s1)
  qed
qed

lemma write_pages_ConsE:
  assumes "write_pages E s od ext ((n, dat, x) # rs) sv = (res, s')"
  obtains (open_fails) e where
      "open_wb E s (joinpath od (page_filename n ext)) = Inl e" "res = Inl e" "s' = s"
    | (no_data)
      "joinpath od (page_filename n ext) \<notin> dirs s" "dat = None" "res = Inl TypeError"
      "s' = s\<lparr>files := (files s)(joinpath od (page_filename n ext) \<mapsto> Data [])\<rparr>"
    | (written) d where
      "joinpath od (page_filename n ext) \<notin> dirs s" "dat = Some d"
      "write_pages E (s\<lparr>files := (files s)(joinpath od (page_filename n ext) \<mapsto> Data d)\<rparr>)
         od ext rs (sv @ [joinpath od (page_filename n ext)]) = (res, s')"
proof (cases "open_wb E s (joinpath od (page_filename n ext))")
  case (Inl e)
  have "(res, s') = (Inl e, s)"
    unfolding assms [symmetric] write_pages_Cons Inl by simp
  then have "res = Inl e" "s' = s" by simp_all
  with Inl show ?thesis by (rule open_fails)
next
  case (Inr s1)
  from open_wb_Inr [OF Inr] have nd: "joinpath od (page_filename n ext) \<notin> dirs s" by simp
  show ?thesis
  proof (cases dat)
    case None
    have "(res, s') =
      (Inl TypeError, s\<lparr>files := (files s)(joinpath od (page_filename n ext) \<mapsto> Data [])\<rparr>)"
      unfolding assms [symmetric] write_pages_Cons Inr None by simp
    then have "res = Inl TypeError"
      "s' = s\<lparr>files := (files s)(joinpath od (page_filename n ext) \<mapsto> Data [])\<rparr>"
      by simp_all
    with nd None show ?thesis by (rule no_data)
  next
    case (Some d)
    have "write_pages E (s\<lparr>files := (files s)(joinpath od (page_filename n ext) \<mapsto> Data d)\<rparr>)
         od ext rs (sv @ [joinpath od (page_filename n ext)]) = (res, s')"
      unfolding assms [symmetric] write_pages_Cons Inr Some by simp
    with nd Some show ?thesis by (rule written)
  qed
qed

lemma write_pages_saved:
  "write_pages E s od ext rs sv = (Inr sv', s') \<Longrightarrow>
     sv' = sv @ map (\<lambda>r. joinpath od (page_filename (fst r) ext)) rs"
proof (induction rs arbitrary: s sv)
  case Nil
  then show ?case by simp
next
  case (Cons r rs)
  obtain n dat x where r: "r = (n, dat, x)" by (cases r) auto
  from Cons.prems [unfolded r] show ?case
  proof (cases rule: write_pages_ConsE)
    case (written d)
    from Cons.IH [OF written(3)] show ?thesis by (simp add: r)
  qed simp_all
qed

lemma write_pages_frame:
  "write_pages E s od ext rs sv = (res, s') \<Longrightarrow> dirs s' = dirs s \<and> out s' = out s"
proof (induction rs arbitrary: s sv)
  case Nil
  then show ?case by simp
next
  case (Cons r rs)
  obtain n dat x where r: "r = (n, dat, x)" by (cases r) auto
  from Cons.prems [unfolded r] show ?case
  proof (cases rule: write_pages_ConsE)
    case (written d)
    from Cons.IH [OF written(3)] show ?thesis by simp
  qed simp_all
qed

lemma write_pages_other:
  "write_pages E s od ext rs sv = (res, s') \<Longrightarrow>
     p \<notin> (\<lambda>r. joinpath od (page_filename (fst r) ext)) ` set rs \<Longrightarrow> files s' p = files s p"
proof (induction rs arbitrary: s sv)
  case Nil
  then show ?case by simp
next
  case (Cons r rs)
  obtain n dat x where r: "r = (n, dat, x)" by (cases r) auto
  from Cons.prems(2) have p: "p \<noteq> joinpath od (page_filename n ext)"
    and p': "p \<notin> (\<lambda>r. joinpath od (page_filename (fst r) ext)) ` set rs"
    by (auto simp: r)
  from Cons.prems(1) [unfolded r] show ?case
  proof (cases rule: write_pages_ConsE)
    case (written d)
    from Cons.IH [OF written(3) p'] show ?thesis using p by simp
  qed (simp_all add: p)
qed

lemma write_pages_data:
  "write_pages E s od ext rs sv = (Inr sv', s') \<Longrightarrow> r \<in> set rs \<Longrightarrow>
     fst (snd r) \<noteq> None \<and> joinpath od (page_filename (fst r) ext) \<notin> dirs s"
proof (induction rs arbitrary: s sv)
  case Nil
  then show ?case by simp
next
  case (Cons r0 rs)
  obtain n dat x where r0: "r0 = (n, dat, x)" by (cases r0) auto
  from Cons.prems(1) [unfolded r0] show ?case
  proof (cases rule: write_pages_ConsE)
    case (written d)
    show ?thesis
    proof (cases "r = r0")
      case True
      then show ?thesis using written(1,2) by (simp add: r0)
    next
      case False
      then have "r \<in> set rs" using Cons.prems(2) by simp
      from Cons.IH [OF written(3) this] show ?thesis by simp
    qed
  qed simp_all
qed

lemma write_pages_content:
  "write_pages E s od ext rs sv = (Inr sv', s') \<Longrightarrow> distinct (map fst rs) \<Longrightarrow>
     (n, Some d, x) \<in> set rs \<Longrightarrow> files s' (joinpath od (page_filename n ext)) = Some (Data d)"
proof (induction rs arbitrary: s sv)
  case Nil
  then show ?case by simp
next
  case (Cons r0 rs)
  obtain n0 dat0 x0 where r0: "r0 = (n0, dat0, x0)" by (cases r0) auto
  let ?p0 = "joinpath od (page_filename n0 ext)"
  from Cons.prems(1) [unfolded r0] show ?case
  proof (cases rule: write_pages_ConsE)
    case (written d0)
    show ?thesis
    proof (cases "(n, Some d, x) \<in> set rs")
      case True
      from Cons.prems(2) have "distinct (map fst rs)" by simp
      from Cons.IH [OF written(3) this True] show ?thesis .
    next
      case False
      then have eq: "n = n0" "d = d0" using Cons.prems(3) written(2) by (auto simp: r0)
      have "n0 \<notin> fst ` set rs" using Cons.prems(2) by (simp add: r0)
      then have "?p0 \<notin> (\<lambda>r. joinpath od (page_filename (fst r) ext)) ` set rs"
        by (auto dest: page_path_inj)
      from write_pages_other [OF written(3) this] show ?thesis by (simp add: eq)
    qed
  qed simp_all
qed


section \<open>Extension of the written files\<close>

lemma sort_key_head_least:
  assumes "sort_key f xs = x0 # rest"
  shows "x0 \<in> set xs" and "\<forall>x \<in> set xs. f x0 \<le> f x"
proof -
  have st: "set xs = set (x0 # rest)"
    using assms by (metis set_sort)
  then show "x0 \<in> set xs" by simp
  have "sorted (map f (x0 # rest))"
    using assms by (metis sorted_sort_key)
  then have "\<forall>x \<in> set rest. f x0 \<le> f x" by simp
  with st show "\<forall>x \<in> set xs. f x0 \<le> f x" by simp
qed

text \<open>
  C10. The writing stage (lines 114-124) is run on the results sorted by page number. The
  first sorted entry \<open>r0\<close> is a result of lowest page number, and the extension chosen on
  line 115 is the one that \<open>r0\<close> records. Every file that the stage saves, and every path
  of the file system that it creates or changes, is \<^verbatim>\<open>page_NNN.<ext>\<close> in the output
  directory with \<^verbatim>\<open><ext>\<close> the extension of \<open>r0\<close> (shown as an f-string shows it),
  whatever extension the page's own entry records. Without entries the chosen extension
  is \<^verbatim>\<open>jpg\<close> and the stage returns no path and leaves the state as it is.
\<close>

theorem save_images_extension:
  "chosen_ext [] = Some ''jpg''
   \<and> save_images E s od (sort_key fst []) = (Inr [], s)
   \<and> (sort_key fst results = r0 # rest \<and> save_images E s od (sort_key fst results) = (res, s')
      \<longrightarrow>
        r0 \<in> set results \<and> (\<forall>r \<in> set results. fst r0 \<le> fst r)
        \<and> chosen_ext (sort_key fst results) = snd (snd r0)
        \<and> (\<forall>sv. res = Inr sv \<longrightarrow>
              sv = map (\<lambda>r. joinpath od
                          (''page_'' @ fmt_03d (fst r + 1) @ ''.'' @ py_str (snd (snd r0))))
                     (sort_key fst results))
        \<and> (\<forall>p. files s' p \<noteq> files s p \<longrightarrow>
              (\<exists>r \<in> set results.
                 p = joinpath od
                       (''page_'' @ fmt_03d (fst r + 1) @ ''.'' @ py_str (snd (snd r0))))))"
proof (intro conjI impI)
  show "chosen_ext [] = Some ''jpg''"
    by (simp add: chosen_ext_def)
  show "save_images E s od (sort_key fst []) = (Inr [], s)"
    by (simp add: save_images_def)
next
  assume a: "sort_key fst results = r0 # rest \<and> save_images E s od (sort_key fst results) = (res, s')"
  then have srt: "sort_key fst results = r0 # rest" by simp
  from sort_key_head_least [OF srt]
  show "r0 \<in> set results" and "\<forall>r \<in> set results. fst r0 \<le> fst r" .
  show ext: "chosen_ext (sort_key fst results) = snd (snd r0)"
    by (simp add: srt chosen_ext_def)
  from a have sv: "save_images E s od (sort_key fst results) = (res, s')"
    by (rule conjunct2)
  have w: "write_pages E s od (snd (snd r0)) (sort_key fst results) [] = (res, s')"
    using sv unfolding save_images_def Let_def ext .
  have nm: "page_filename n (snd (snd r0))
      = ''page_'' @ fmt_03d (n + 1) @ ''.'' @ py_str (snd (snd r0))" for n
    by (simp add: page_filename_def)
  show "\<forall>sv. res = Inr sv \<longrightarrow>
      sv = map (\<lambda>r. joinpath od (''page_'' @ fmt_03d (fst r + 1) @ ''.'' @ py_str (snd (snd r0))))
             (sort_key fst results)"
  proof (intro allI impI)
    fix sv assume "res = Inr sv"
    with w have "write_pages E s od (snd (snd r0)) (sort_key fst results) [] = (Inr sv, s')" by simp
    from write_pages_saved [OF this] show "sv
      = map (\<lambda>r. joinpath od (''page_'' @ fmt_03d (fst r + 1) @ ''.'' @ py_str (snd (snd r0))))
          (sort_key fst results)"
      by (simp only: nm append_Nil)
  qed
  show "\<forall>p. files s' p \<noteq> files s p \<longrightarrow>
      (\<exists>r \<in> set results.
         p = joinpath od (''page_'' @ fmt_03d (fst r + 1) @ ''.'' @ py_str (snd (snd r0))))"
  proof (intro allI impI)
    fix p assume ch: "files s' p \<noteq> files s p"
    from write_pages_other [OF w, of p] ch
    have "p \<in> (\<lambda>r. joinpath od (page_filename (fst r) (snd (snd r0)))) ` set (sort_key fst results)"
      by blast
    then show "\<exists>r \<in> set results.
        p = joinpath od (''page_'' @ fmt_03d (fst r + 1) @ ''.'' @ py_str (snd (snd r0)))"
      by (auto simp: nm)
  qed
qed

lemma fmt_03d_1: "fmt_03d (Suc 0) = ''001''"
  by (simp add: fmt_03d_def digits.simps digit_char_def eval_nat_numeral)

lemma fmt_03d_2: "fmt_03d (Suc (Suc 0)) = ''002''"
  by (simp add: fmt_03d_def digits.simps digit_char_def eval_nat_numeral)

lemma fmt_03d_3: "fmt_03d 3 = ''003''"
  by (simp add: fmt_03d_def digits.simps digit_char_def eval_nat_numeral)

lemma fmt_03d_4: "fmt_03d 4 = ''004''"
  by (simp add: fmt_03d_def digits.simps digit_char_def eval_nat_numeral)

lemma fmt_03d_5: "fmt_03d 5 = ''005''"
  by (simp add: fmt_03d_def digits.simps digit_char_def eval_nat_numeral)

lemmas fmt_03d_samples = fmt_03d_1 fmt_03d_2 fmt_03d_3 fmt_03d_4 fmt_03d_5

text \<open>Two results that arrive in descending page order and record different extensions,
  written into an existing directory \<^verbatim>\<open>out\<close>: page 1 records \<^verbatim>\<open>jpg\<close>, page 2 records
  \<^verbatim>\<open>png\<close>, and both files get \<^verbatim>\<open>jpg\<close>.\<close>

theorem save_images_extension_witness:
  "save_images (sample_env 2 no_failure nothing_denied)
     (sample_state\<lparr>dirs := {Path [] [], Path [] [''out'']}\<rparr>) (Path [] [''out''])
     (sort_key fst [(1, Some [8], Some ''png''), (0, Some [7], Some ''jpg'')])
   = (Inr [Path [] [''out'', ''page_001.jpg''], Path [] [''out'', ''page_002.jpg'']],
      sample_state\<lparr>dirs := {Path [] [], Path [] [''out'']},
        files := [sample_pdf \<mapsto> Data [],
                  Path [] [''out'', ''page_001.jpg''] \<mapsto> Data [7],
                  Path [] [''out'', ''page_002.jpg''] \<mapsto> Data [8]]\<rparr>)"
proof -
  let ?E = "sample_env 2 no_failure nothing_denied"
  let ?s = "sample_state\<lparr>dirs := {Path [] [], Path [] [''out'']}\<rparr>"
  let ?results = "[(1, Some [8], Some ''png''), (0, Some [7], Some ''jpg'')] :: entry list"
  let ?run = "save_images ?E ?s (Path [] [''out'']) (sort_key fst ?results)"
  have srt: "sort_key fst ?results = (0, Some [7], Some ''jpg'') # [(1, Some [8], Some ''png'')]"
    by simp
  have run: "?run = (fst ?run, snd ?run)" by simp
  have st: "snd ?run = sample_state\<lparr>dirs := {Path [] [], Path [] [''out'']},
        files := [sample_pdf \<mapsto> Data [],
                  Path [] [''out'', ''page_001.jpg''] \<mapsto> Data [7],
                  Path [] [''out'', ''page_002.jpg''] \<mapsto> Data [8]]\<rparr>"
    by (simp add: save_images_def chosen_ext_def write_pages.simps open_wb_def joinpath_def
        parent_def page_filename_def py_str_def fmt_03d_samples sample_simps Let_def)
  have ok: "\<exists>sv. fst ?run = Inr sv"
    by (simp add: save_images_def chosen_ext_def write_pages.simps open_wb_def joinpath_def
        parent_def page_filename_def py_str_def fmt_03d_samples sample_simps Let_def)
  then obtain sv where sv: "fst ?run = Inr sv" ..
  from save_images_extension [of ?E ?s "Path [] [''out'']" ?results "(0, Some [7], Some ''jpg'')"
      "[(1, Some [8], Some ''png'')]" "fst ?run" "snd ?run"] srt run sv
  have "sv = map (\<lambda>r. joinpath (Path [] [''out''])
          (''page_'' @ fmt_03d (fst r + 1) @ ''.'' @ py_str (snd (snd (0 :: nat, Some [7 :: 8 word], Some ''jpg'')))))
      (sort_key fst ?results)"
    by blast
  then have "sv = [Path [] [''out'', ''page_001.jpg''], Path [] [''out'', ''page_002.jpg'']]"
    by (simp add: joinpath_def py_str_def fmt_03d_samples)
  with sv st show ?thesis by (simp add: prod_eq_iff)
qed

section \<open>Evaluation of sample runs\<close>

lemmas run_simps = main_def convert_pdf_to_images_def convert_pages_def archive_stage_def
  write_zip_def save_images_def chosen_ext_def run_pool_def as_completed_def build_tasks_def convert_page_def
  exists_def mkdir_exist_ok_def open_wb_def say_def default_output_dir_def zip_path_of_def
  joinpath_def parent_def stem_def name_def lower_def upper_def lower_char_def upper_char_def
  truthy_def py_str_def page_filename_def write_pages.simps fmt_03d_samples Let_def
  upt_conv_Cons

section \<open>One page whose rendering raises\<close>

lemma fmt_03d_Suc_samples:
  "fmt_03d (Suc (Suc (Suc 0))) = ''003''"
  "fmt_03d (Suc (Suc (Suc (Suc 0)))) = ''004''"
  "fmt_03d (Suc (Suc (Suc (Suc (Suc 0))))) = ''005''"
  using fmt_03d_3 fmt_03d_4 fmt_03d_5 by (simp_all add: eval_nat_numeral)


text \<open>
  C2 fails on the code when the exception has an empty text (\<^verbatim>\<open>str(e) == ''\<close>, as for
  \<^verbatim>\<open>MemoryError()\<close>): line 103 tests the truth value of \<^verbatim>\<open>error\<close>, the empty string is
  false, and the failed page is appended as a result without data. Nothing is printed
  about page 3; the writing loop writes pages 1 and 2, creates \<^verbatim>\<open>page_003.jpg\<close> empty and
  raises \<^verbatim>\<open>TypeError\<close> on \<^verbatim>\<open>f.write(None)\<close>; pages 4 and 5 are never written, no archive
  is made and the process ends with status 1.
\<close>

theorem one_page_fails_with_empty_message:
  "main (sample_env 5 (fails_at 2 []) nothing_denied) sample_state sample_args
   = (1, \<lparr>dirs = {Path [] [''doc_images''], Path [] []},
          files = [sample_pdf \<mapsto> Data [],
            Path [] [''doc_images'', ''page_001.jpg''] \<mapsto> Data [0],
            Path [] [''doc_images'', ''page_002.jpg''] \<mapsto> Data [1],
            Path [] [''doc_images'', ''page_003.jpg''] \<mapsto> Data []],
          out = [MsgInfo ''doc.pdf'' 5 ''JPEG'' 150 (Some 85) (Some 2),
                 Progress, Progress, Progress, Progress, Progress]\<rparr>)"
  by (simp add: run_simps fmt_03d_Suc_samples sample_simps)

section \<open>The archive\<close>

declare zip_members.simps(2) [simp del]

lemma zip_members_frame:
  "zip_members s zp ms fs = (res, s') \<Longrightarrow>
     dirs s' = dirs s \<and> out s' = out s \<and> (\<forall>p. p \<noteq> zp \<longrightarrow> files s' p = files s p)"
proof (induction fs arbitrary: s ms)
  case Nil
  then show ?case by simp
next
  case (Cons f fs)
  show ?case
  proof (cases "f \<in> dirs s")
    case True
    with Cons.prems have
      "zip_members (s\<lparr>files := (files s)(zp \<mapsto> Zip (ms @ [(name f @ ''/'', Data [])]))\<rparr>) zp
         (ms @ [(name f @ ''/'', Data [])]) fs = (res, s')"
      by (simp add: zip_members.simps(2))
    from Cons.IH [OF this] show ?thesis by simp
  next
    case False
    show ?thesis
    proof (cases "files s f")
      case None
      with False Cons.prems show ?thesis by (simp add: zip_members.simps(2))
    next
      case (Some c)
      with False Cons.prems have
        "zip_members (s\<lparr>files := (files s)(zp \<mapsto> Zip (ms @ [(name f, c)]))\<rparr>) zp
           (ms @ [(name f, c)]) fs = (res, s')"
        by (simp add: zip_members.simps(2))
      from Cons.IH [OF this] show ?thesis by simp
    qed
  qed
qed

lemma zip_members_ok:
  assumes "zp \<notin> set fs" and "\<forall>f \<in> set fs. f \<notin> dirs s \<and> files s f = Some (c f)"
    and "files s zp = Some (Zip ms)"
  shows "\<exists>s'. zip_members s zp ms fs = (Inr (), s')
     \<and> files s' zp = Some (Zip (ms @ map (\<lambda>f. (name f, c f)) fs))"
  using assms
proof (induction fs arbitrary: s ms)
  case Nil
  then show ?case by simp
next
  case (Cons f fs)
  let ?s1 = "s\<lparr>files := (files s)(zp \<mapsto> Zip (ms @ [(name f, c f)]))\<rparr>"
  from Cons.prems have f: "f \<notin> dirs s" "files s f = Some (c f)" "f \<noteq> zp" by auto
  have step: "zip_members s zp ms (f # fs) = zip_members ?s1 zp (ms @ [(name f, c f)]) fs"
    using f by (simp add: zip_members.simps(2))
  have "zp \<notin> set fs" using Cons.prems(1) by simp
  moreover have "\<forall>g \<in> set fs. g \<notin> dirs ?s1 \<and> files ?s1 g = Some (c g)"
    using Cons.prems(1,2) by auto
  moreover have "files ?s1 zp = Some (Zip (ms @ [(name f, c f)]))" by simp
  ultimately obtain s' where "zip_members ?s1 zp (ms @ [(name f, c f)]) fs = (Inr (), s')"
    and "files s' zp = Some (Zip ((ms @ [(name f, c f)]) @ map (\<lambda>f. (name f, c f)) fs))"
    using Cons.IH [of ?s1 "ms @ [(name f, c f)]"] by blast
  then show ?case by (simp add: step)
qed

lemma write_zip_frame:
  "write_zip E s zp fs = (res, s') \<Longrightarrow>
     dirs s' = dirs s \<and> out s' = out s \<and> (\<forall>p. p \<noteq> zp \<longrightarrow> files s' p = files s p)"
proof (cases "open_wb E s zp")
  case (Inl e)
  assume "write_zip E s zp fs = (res, s')"
  with Inl show ?thesis by (simp add: write_zip_def)
next
  case (Inr s1)
  assume w: "write_zip E s zp fs = (res, s')"
  from open_wb_Inr [OF Inr] have s1: "s1 = s\<lparr>files := (files s)(zp \<mapsto> Data [])\<rparr>" by simp
  from w Inr have "zip_members (s1\<lparr>files := (files s1)(zp \<mapsto> Zip [])\<rparr>) zp [] fs = (res, s')"
    by (simp add: write_zip_def)
  from zip_members_frame [OF this] show ?thesis by (simp add: s1)
qed

lemma write_zip_ok:
  assumes w: "write_zip E s zp fs = (Inr u, s')"
    and "zp \<notin> set fs" and "\<forall>f \<in> set fs. f \<notin> dirs s \<and> files s f = Some (c f)"
  shows "files s' zp = Some (Zip (map (\<lambda>f. (name f, c f)) fs))"
proof (cases "open_wb E s zp")
  case (Inl e)
  with w show ?thesis by (simp add: write_zip_def)
next
  case (Inr s1)
  from open_wb_Inr [OF Inr] have s1: "s1 = s\<lparr>files := (files s)(zp \<mapsto> Data [])\<rparr>" by simp
  let ?s2 = "s1\<lparr>files := (files s1)(zp \<mapsto> Zip [])\<rparr>"
  from w Inr have run: "zip_members ?s2 zp [] fs = (Inr u, s')"
    by (simp add: write_zip_def)
  have "\<forall>f \<in> set fs. f \<notin> dirs ?s2 \<and> files ?s2 f = Some (c f)"
    using assms(2,3) by (auto simp: s1)
  moreover have "files ?s2 zp = Some (Zip [])" by simp
  ultimately obtain s'' where "zip_members ?s2 zp [] fs = (Inr (), s'')"
    and "files s'' zp = Some (Zip ([] @ map (\<lambda>f. (name f, c f)) fs))"
    using zip_members_ok [OF assms(2), of ?s2 c "[]"] by blast
  with run show ?thesis by simp
qed

section \<open>Decomposition of a run\<close>

lemma page_entry_Some:
  assumes "fst (snd (page_entry E p d f q i)) = Some dd"
  shows "page_entry E p d f q i = (i, Some dd, Some (format_ext f))"
    and "page_data E p d f q i = dd"
  using assms
  by (auto simp: page_entry_def page_data_def page_result_of_def entry_of_def convert_page_def
      format_ext_def split: sum.splits if_splits)

lemma progress_pool_events:
  "length (filter (\<lambda>e. e = Progress) (pool_events E (build_tasks p P d f q))) = P"
proof -
  have "length (as_completed E (build_tasks p P d f q)) = P"
    by (simp add: as_completed_def build_tasks_def)
  then show ?thesis
    unfolding pool_events_def
    using progress_concat [of "map (convert_page E) (as_completed E (build_tasks p P d f q))"]
    by simp
qed

lemma progress_count_say:
  "progress_count (say es s) = progress_count s + length (filter (\<lambda>e. e = Progress) es)"
  by (simp add: progress_count_def say_def)

lemma pool_size_ok_iff:
  "pool_size_ok E nw \<longleftrightarrow>
     (case (case nw of None \<Rightarrow> cpu_count E | Some w \<Rightarrow> Some w) of None \<Rightarrow> True | Some k \<Rightarrow> 1 \<le> k)"
  by (simp add: pool_size_ok_def)

lemma convert_pages_bad_pool:
  "\<not> pool_size_ok E nw \<Longrightarrow> convert_pages E t pdf od f d q cz nw P = (Inl ValueError, t)"
  by (auto simp: pool_size_ok_def convert_pages_def run_pool_def Let_def split: option.splits)

lemma convert_pages_eq:
  assumes "pool_size_ok E nw"
  shows "convert_pages E t pdf od f d q cz nw P =
    (case save_images E (say (pool_events E (build_tasks pdf P d f q)) t) od
            (map (page_entry E pdf d f q) (filter (page_ok E pdf d f q) [0..<P])) of
       (Inl e, s2) \<Rightarrow> (Inl e, s2)
     | (Inr saved_files, s2) \<Rightarrow>
         archive_stage E (say [MsgDone (length saved_files) od] s2) pdf od cz saved_files)"
proof -
  have "run_pool E t (case nw of None \<Rightarrow> cpu_count E | Some w \<Rightarrow> Some w) (build_tasks pdf P d f q)
    = (Inr (map entry_of (filter kept (map (convert_page E) (as_completed E (build_tasks pdf P d f q))))),
       say (pool_events E (build_tasks pdf P d f q)) t)"
    unfolding pool_events_def
    by (rule run_pool_eq) (use assms in \<open>simp add: pool_size_ok_def\<close>)
  then show ?thesis
    by (simp add: convert_pages_def Let_def sorted_pool_entries)
qed

lemma mkdir_exist_ok_Inr:
  "mkdir_exist_ok E s p = Inr s1 \<Longrightarrow>
     can_mkdir E s p \<and> dirs s1 = insert p (dirs s) \<and> files s1 = files s \<and> out s1 = out s"
  by (auto simp: mkdir_exist_ok_def can_mkdir_def split: if_splits)

lemma can_mkdir_Inr:
  "can_mkdir E s p \<Longrightarrow> \<exists>s1. mkdir_exist_ok E s p = Inr s1"
  by (auto simp: mkdir_exist_ok_def can_mkdir_def)

lemma convert_pdf_to_images_eq:
  assumes "exists s pdf" and "mkdir_exist_ok E s (chosen_output_dir pdf od) = Inr s1"
    and "fitz_len E pdf = Inr P"
  shows "convert_pdf_to_images E s pdf od f d q cz nw =
    convert_pages E (say [info_message E pdf f d q nw P] s1) pdf (chosen_output_dir pdf od)
      f d q cz nw P"
  using assms
  by (simp add: convert_pdf_to_images_def chosen_output_dir_def info_message_def Let_def)

lemma convert_pdf_to_images_cases:
  obtains (missing) "\<not> exists s pdf"
      "convert_pdf_to_images E s pdf od f d q cz nw = (Inr False, say [MsgFileNotFound pdf] s)"
    | (no_dir) e where "exists s pdf" "mkdir_exist_ok E s (chosen_output_dir pdf od) = Inl e"
      "convert_pdf_to_images E s pdf od f d q cz nw = (Inl e, s)"
    | (unreadable) s1 e where "exists s pdf"
      "mkdir_exist_ok E s (chosen_output_dir pdf od) = Inr s1" "fitz_len E pdf = Inl e"
      "convert_pdf_to_images E s pdf od f d q cz nw = (Inr False, say [MsgOpenFailed e] s1)"
    | (opened) s1 P where "exists s pdf"
      "mkdir_exist_ok E s (chosen_output_dir pdf od) = Inr s1" "fitz_len E pdf = Inr P"
      "convert_pdf_to_images E s pdf od f d q cz nw =
         convert_pages E (say [info_message E pdf f d q nw P] s1) pdf (chosen_output_dir pdf od)
           f d q cz nw P"
proof (cases "exists s pdf")
  case False
  then show ?thesis using missing by (simp add: convert_pdf_to_images_def)
next
  case ex: True
  show ?thesis
  proof (cases "mkdir_exist_ok E s (chosen_output_dir pdf od)")
    case (Inl e)
    then have "convert_pdf_to_images E s pdf od f d q cz nw = (Inl e, s)"
      using ex by (simp add: convert_pdf_to_images_def chosen_output_dir_def Let_def)
    with ex Inl show ?thesis by (rule no_dir)
  next
    case (Inr s1)
    show ?thesis
    proof (cases "fitz_len E pdf")
      case (Inl e)
      then have "convert_pdf_to_images E s pdf od f d q cz nw = (Inr False, say [MsgOpenFailed e] s1)"
        using ex Inr by (simp add: convert_pdf_to_images_def chosen_output_dir_def Let_def)
      with ex Inr Inl show ?thesis by (rule unreadable)
    next
      case P: (Inr P)
      from convert_pdf_to_images_eq [OF ex Inr P] ex Inr P show ?thesis by (rule opened [rotated 3])
    qed
  qed
qed

lemma main_eq:
  "main E s a =
     (if arg_quality a < 1 \<or> arg_quality a > 100 then (1, say [MsgQualityError] s)
      else case convert_pdf_to_images E (after_dpi_check a s) (arg_pdf_file a) (arg_output a)
                  (arg_format a) (arg_dpi a) (arg_quality a) (\<not> arg_no_zip a) (arg_workers a) of
             (Inr success, s') \<Rightarrow> ((if success then 0 else 1), s')
           | (Inl e, s') \<Rightarrow> (1, s'))"
  by (simp add: main_def after_dpi_check_def Let_def)

lemma after_dpi_check_fields:
  "dirs (after_dpi_check a s) = dirs s" "files (after_dpi_check a s) = files s"
  "progress_count (after_dpi_check a s) = progress_count s"
  "exists (after_dpi_check a s) p = exists s p"
  "can_mkdir E (after_dpi_check a s) p = can_mkdir E s p"
  by (simp_all add: after_dpi_check_def say_def progress_count_def exists_def can_mkdir_def)

section \<open>Runs that complete\<close>

lemma save_images_Nil: "save_images E s od [] = (Inr [], s)"
  by (simp add: save_images_def)

lemma save_images_ok:
  assumes sv: "save_images E s od (map (page_entry E pdf d f q) oks) = (Inr saved, sC)"
    and dist: "distinct oks"
  shows "saved = map (\<lambda>i. joinpath od (page_filename i (Some (format_ext f)))) oks"
    and "dirs sC = dirs s" and "out sC = out s"
    and "\<forall>i \<in> set oks. files sC (joinpath od (page_filename i (Some (format_ext f))))
            = Some (Data (page_data E pdf d f q i))
          \<and> joinpath od (page_filename i (Some (format_ext f))) \<notin> dirs s"
    and "\<forall>p. p \<notin> set saved \<longrightarrow> files sC p = files s p"
proof -
  let ?rs = "map (page_entry E pdf d f q) oks"
  let ?x = "Some (format_ext f)"
  have all: "saved = map (\<lambda>i. joinpath od (page_filename i ?x)) oks \<and> dirs sC = dirs s
    \<and> out sC = out s
    \<and> (\<forall>i \<in> set oks. files sC (joinpath od (page_filename i ?x)) = Some (Data (page_data E pdf d f q i))
          \<and> joinpath od (page_filename i ?x) \<notin> dirs s)
    \<and> (\<forall>p. p \<notin> set saved \<longrightarrow> files sC p = files s p)"
  proof (cases oks)
    case Nil
    with sv show ?thesis by (simp add: save_images_Nil)
  next
    case (Cons i0 rest)
    let ?first = "snd (snd (page_entry E pdf d f q i0))"
    from sv have w0: "write_pages E s od ?first ?rs [] = (Inr saved, sC)"
      by (simp add: save_images_def chosen_ext_def Cons)
    have ent: "page_entry E pdf d f q i = (i, Some (page_data E pdf d f q i), ?x)
        \<and> joinpath od (page_filename i ?first) \<notin> dirs s" if "i \<in> set oks" for i
    proof -
      from that have "page_entry E pdf d f q i \<in> set ?rs" by simp
      from write_pages_data [OF w0 this]
      obtain dd where dd: "fst (snd (page_entry E pdf d f q i)) = Some dd"
        and nd: "joinpath od (page_filename i ?first) \<notin> dirs s"
        by (auto simp: fst_page_entry)
      from page_entry_Some [OF dd] nd show ?thesis by simp
    qed
    have fx: "?first = ?x" using ent [of i0] by (simp add: Cons)
    from w0 have w: "write_pages E s od ?x ?rs [] = (Inr saved, sC)" by (simp only: fx)
    have saved: "saved = map (\<lambda>i. joinpath od (page_filename i ?x)) oks"
      using write_pages_saved [OF w] by (simp add: o_def fst_page_entry)
    have frame: "dirs sC = dirs s \<and> out sC = out s"
      using write_pages_frame [OF w] .
    have dk: "distinct (map fst ?rs)"
      using dist by (simp only: map_fst_page_entry)
    have content: "files sC (joinpath od (page_filename i ?x)) = Some (Data (page_data E pdf d f q i))
        \<and> joinpath od (page_filename i ?x) \<notin> dirs s" if "i \<in> set oks" for i
    proof -
      from ent [OF that] have "(i, Some (page_data E pdf d f q i), ?x) \<in> set ?rs"
        using that by (metis (no_types, lifting) image_eqI list.set_map)
      from write_pages_content [OF w dk this] ent [OF that] show ?thesis by (simp add: fx)
    qed
    have other: "files sC p = files s p" if "p \<notin> set saved" for p
    proof -
      from that have "p \<notin> (\<lambda>r. joinpath od (page_filename (fst r) ?x)) ` set ?rs"
        by (auto simp: saved fst_page_entry)
      from write_pages_other [OF w this] show ?thesis .
    qed
    from saved frame content other show ?thesis by blast
  qed
  from all show "saved = map (\<lambda>i. joinpath od (page_filename i ?x)) oks"
    and "dirs sC = dirs s" and "out sC = out s"
    and "\<forall>i \<in> set oks. files sC (joinpath od (page_filename i ?x))
            = Some (Data (page_data E pdf d f q i))
          \<and> joinpath od (page_filename i ?x) \<notin> dirs s"
    and "\<forall>p. p \<notin> set saved \<longrightarrow> files sC p = files s p"
    by blast+
qed

lemma format_ext_cases: "format_ext f = ''jpg'' \<or> format_ext f = ''png''"
  by (simp add: format_ext_def)

lemma archive_stage_skip:
  "\<not> (cz \<and> saved \<noteq> []) \<Longrightarrow> archive_stage E s pdf od cz saved = (Inr True, s)"
  by (auto simp: archive_stage_def)

lemma archive_stage_frame:
  assumes "archive_stage E s pdf od cz saved = (res, s')"
  shows "dirs s' = dirs s" and "progress_count s' = progress_count s"
    and "\<forall>p. p \<noteq> zip_path_of pdf \<longrightarrow> files s' p = files s p"
proof -
  have "dirs s' = dirs s \<and> progress_count s' = progress_count s
    \<and> (\<forall>p. p \<noteq> zip_path_of pdf \<longrightarrow> files s' p = files s p)"
  proof (cases "cz \<and> saved \<noteq> []")
    case False
    with assms show ?thesis by (simp add: archive_stage_skip)
  next
    case True
    obtain r s6 where w: "write_zip E (say [MsgZipStart] s) (zip_path_of pdf) saved = (r, s6)"
      by (cases "write_zip E (say [MsgZipStart] s) (zip_path_of pdf) saved") auto
    from write_zip_frame [OF w]
    have f6: "dirs s6 = dirs s" "out s6 = out s @ [MsgZipStart]"
      "\<forall>p. p \<noteq> zip_path_of pdf \<longrightarrow> files s6 p = files s p"
      by (simp_all add: say_def)
    show ?thesis
    proof (cases r)
      case (Inl e)
      with assms True w have "s' = s6" by (simp add: archive_stage_def)
      with f6 show ?thesis by (simp add: progress_count_def)
    next
      case (Inr u)
      with assms True w
      have "s' = say [MsgZipDone (zip_path_of pdf), MsgKept od] s6" by (simp add: archive_stage_def)
      with f6 show ?thesis by (simp add: progress_count_def say_def)
    qed
  qed
  then show "dirs s' = dirs s" and "progress_count s' = progress_count s"
    and "\<forall>p. p \<noteq> zip_path_of pdf \<longrightarrow> files s' p = files s p"
    by blast+
qed


lemma archive_stage_members:
  assumes a: "archive_stage E s pdf od True saved = (Inr True, s')" and ne: "saved \<noteq> []"
    and "zip_path_of pdf \<notin> set saved"
    and "\<forall>f \<in> set saved. f \<notin> dirs s \<and> files s f = Some (c f)"
  shows "files s' (zip_path_of pdf) = Some (Zip (map (\<lambda>f. (name f, c f)) saved))"
proof -
  obtain r s6 where w: "write_zip E (say [MsgZipStart] s) (zip_path_of pdf) saved = (r, s6)"
    by (cases "write_zip E (say [MsgZipStart] s) (zip_path_of pdf) saved") auto
  from a ne w obtain u where r: "r = Inr u"
    and s': "s' = say [MsgZipDone (zip_path_of pdf), MsgKept od] s6"
    by (cases r) (auto simp: archive_stage_def)
  have "\<forall>f \<in> set saved. f \<notin> dirs (say [MsgZipStart] s) \<and> files (say [MsgZipStart] s) f = Some (c f)"
    using assms(4) by (simp add: say_def)
  from write_zip_ok [OF w [unfolded r] assms(3) this] show ?thesis
    by (simp add: s' say_def)
qed

lemma convert_pages_True:
  assumes run: "convert_pages E t pdf od f d q cz nw P = (Inr True, s')"
  shows "pool_size_ok E nw"
    and "dirs s' = dirs t"
    and "progress_count s' = progress_count t + P"
    and "\<forall>i \<in> set (filter (page_ok E pdf d f q) [0..<P]).
           files s' (joinpath od (page_filename i (Some (format_ext f))))
             = Some (Data (page_data E pdf d f q i))"
    and "cz \<and> filter (page_ok E pdf d f q) [0..<P] \<noteq> [] \<longrightarrow>
           files s' (zip_path_of pdf)
             = Some (Zip (map (\<lambda>i. (page_filename i (Some (format_ext f)), Data (page_data E pdf d f q i)))
                 (filter (page_ok E pdf d f q) [0..<P])))"
    and "\<not> (cz \<and> filter (page_ok E pdf d f q) [0..<P] \<noteq> []) \<longrightarrow>
           files s' (zip_path_of pdf) = files t (zip_path_of pdf)"
    and "\<forall>p. p \<noteq> zip_path_of pdf
           \<and> p \<notin> (\<lambda>i. joinpath od (page_filename i (Some (format_ext f))))
                 ` set (filter (page_ok E pdf d f q) [0..<P])
           \<longrightarrow> files s' p = files t p"
proof -
  let ?oks = "filter (page_ok E pdf d f q) [0..<P]"
  let ?pth = "\<lambda>i. joinpath od (page_filename i (Some (format_ext f)))"
  let ?zp = "zip_path_of pdf"
  let ?t1 = "say (pool_events E (build_tasks pdf P d f q)) t"
  show ok: "pool_size_ok E nw"
    using run convert_pages_bad_pool [of E nw t pdf od f d q cz P] by auto
  obtain r sC where sv: "save_images E ?t1 od (map (page_entry E pdf d f q) ?oks) = (r, sC)"
    by (cases "save_images E ?t1 od (map (page_entry E pdf d f q) ?oks)") auto
  from run sv obtain saved where r: "r = Inr saved"
    by (cases r) (auto simp: convert_pages_eq [OF ok])
  from run sv r
  have ar: "archive_stage E (say [MsgDone (length saved) od] sC) pdf od cz saved = (Inr True, s')"
    by (simp add: convert_pages_eq [OF ok])
  have dist: "distinct ?oks" by simp
  note so = save_images_ok [OF sv [unfolded r] dist]
  note af = archive_stage_frame [OF ar]
  have notzip: "?pth i \<noteq> ?zp" for i
    by (rule page_path_not_zip) (use format_ext_cases [of f] in blast)
  have zp_saved: "?zp \<notin> set saved"
  proof
    assume "?zp \<in> set saved"
    then obtain i where "?pth i = ?zp" unfolding so(1) by auto
    with notzip [of i] show False by simp
  qed
  show "dirs s' = dirs t"
    using af(1) so(2) by (simp add: say_def)
  show "progress_count s' = progress_count t + P"
    using af(2) so(3) progress_pool_events [of E pdf P d f q]
    by (simp add: progress_count_def say_def)
  show pages: "\<forall>i \<in> set ?oks. files s' (?pth i) = Some (Data (page_data E pdf d f q i))"
    using af(3) so(4) notzip by (simp add: say_def)
  show "cz \<and> ?oks \<noteq> [] \<longrightarrow> files s' ?zp
      = Some (Zip (map (\<lambda>i. (page_filename i (Some (format_ext f)), Data (page_data E pdf d f q i))) ?oks))"
  proof
    assume c: "cz \<and> ?oks \<noteq> []"
    let ?c = "\<lambda>p. case files sC p of None \<Rightarrow> Data [] | Some x \<Rightarrow> x"
    from c have ne: "saved \<noteq> []" by (simp add: so(1))
    have "\<forall>g \<in> set saved. g \<notin> dirs (say [MsgDone (length saved) od] sC)
        \<and> files (say [MsgDone (length saved) od] sC) g = Some (?c g)"
      using so(4) by (auto simp: so(1) so(2) say_def)
    from archive_stage_members [OF _ ne zp_saved this] ar c
    have "files s' ?zp = Some (Zip (map (\<lambda>g. (name g, ?c g)) saved))" by simp
    also have "map (\<lambda>g. (name g, ?c g)) saved
      = map (\<lambda>i. (page_filename i (Some (format_ext f)), Data (page_data E pdf d f q i))) ?oks"
      unfolding so(1) map_map o_def
      by (rule map_cong [OF refl]) (use so(4) in \<open>simp add: name_joinpath\<close>)
    finally show "files s' ?zp
      = Some (Zip (map (\<lambda>i. (page_filename i (Some (format_ext f)), Data (page_data E pdf d f q i))) ?oks))" .
  qed
  show "\<not> (cz \<and> ?oks \<noteq> []) \<longrightarrow> files s' ?zp = files t ?zp"
  proof
    assume "\<not> (cz \<and> ?oks \<noteq> [])"
    then have "\<not> (cz \<and> saved \<noteq> [])" by (simp add: so(1))
    from archive_stage_skip [OF this, of E _ pdf od] ar
    have "s' = say [MsgDone (length saved) od] sC" by simp
    then show "files s' ?zp = files t ?zp"
      using so(5) zp_saved by (simp add: say_def)
  qed
  show "\<forall>p. p \<noteq> ?zp \<and> p \<notin> ?pth ` set ?oks \<longrightarrow> files s' p = files t p"
    using af(3) so(5) by (simp add: so(1) say_def)
qed

lemma convert_pdf_to_images_True:
  assumes run: "convert_pdf_to_images E s pdf od f d q cz nw = (Inr True, s')"
    and len: "fitz_len E pdf = Inr P"
  obtains s1 where "exists s pdf" "mkdir_exist_ok E s (chosen_output_dir pdf od) = Inr s1"
    "convert_pages E (say [info_message E pdf f d q nw P] s1) pdf (chosen_output_dir pdf od)
       f d q cz nw P = (Inr True, s')"
proof (cases rule: convert_pdf_to_images_cases [of s pdf E od f d q cz nw])
  case missing
  with run show ?thesis by simp
next
  case (no_dir e)
  with run show ?thesis by simp
next
  case (unreadable s1 e)
  with run show ?thesis by simp
next
  case (opened s1 P')
  with len have "P' = P" by simp
  with opened run that show ?thesis by simp
qed

lemma slash_not_in_page_filename: "CHR ''/'' \<notin> set (page_filename i (Some (format_ext f)))"
  using fmt_03d_are_digits [of "i + 1"] format_ext_cases [of f]
  by (auto simp: page_filename_def py_str_def)

section \<open>Names of the output files\<close>



lemmas eval_simps = run_simps zip_members.simps fmt_03d_Suc_samples sample_simps


section \<open>Content of the archive\<close>

text \<open>
  C7. In a run with archiving enabled that completes and has at least one kept page, the
  archive \<^verbatim>\<open><stem>_images.zip\<close> holds exactly one member for each written page file, in
  ascending page order (the pages are those of \<open>[0..<P]\<close> that were kept, in that order);
  the name of a member is the base name of the file, which contains no slash, the names
  are pairwise different, and the content of a member is the content of the file. Every
  page file is still in the output directory after the archive has been written.
\<close>

theorem archive_holds_written_files:
  assumes run: "convert_pdf_to_images E s pdf od f d q True nw = (Inr True, s')"
    and len: "fitz_len E pdf = Inr P"
    and some: "filter (page_ok E pdf d f q) [0..<P] \<noteq> []"
  shows "files s' (zip_path_of pdf)
       = Some (Zip (map (\<lambda>i. (page_filename i (Some (format_ext f)), Data (page_data E pdf d f q i)))
           (filter (page_ok E pdf d f q) [0..<P])))
    \<and> (\<forall>i \<in> set (filter (page_ok E pdf d f q) [0..<P]).
          files s' (joinpath (chosen_output_dir pdf od) (page_filename i (Some (format_ext f))))
            = Some (Data (page_data E pdf d f q i))
          \<and> name (joinpath (chosen_output_dir pdf od) (page_filename i (Some (format_ext f))))
            = page_filename i (Some (format_ext f))
          \<and> CHR ''/'' \<notin> set (page_filename i (Some (format_ext f))))
    \<and> distinct (map (\<lambda>i. page_filename i (Some (format_ext f))) (filter (page_ok E pdf d f q) [0..<P]))
    \<and> sorted (filter (page_ok E pdf d f q) [0..<P])"
proof -
  let ?oks = "filter (page_ok E pdf d f q) [0..<P]"
  from run len obtain s1 where
    pages: "convert_pages E (say [info_message E pdf f d q nw P] s1) pdf (chosen_output_dir pdf od)
       f d q True nw P = (Inr True, s')"
    by (rule convert_pdf_to_images_True)
  note cp = convert_pages_True [OF pages]
  have zip: "files s' (zip_path_of pdf)
       = Some (Zip (map (\<lambda>i. (page_filename i (Some (format_ext f)), Data (page_data E pdf d f q i))) ?oks))"
    using cp(5) some by simp
  have kept_files: "\<forall>i \<in> set ?oks.
          files s' (joinpath (chosen_output_dir pdf od) (page_filename i (Some (format_ext f))))
            = Some (Data (page_data E pdf d f q i))
          \<and> name (joinpath (chosen_output_dir pdf od) (page_filename i (Some (format_ext f))))
            = page_filename i (Some (format_ext f))
          \<and> CHR ''/'' \<notin> set (page_filename i (Some (format_ext f)))"
    using cp(4) by (simp add: name_joinpath slash_not_in_page_filename)
  have "inj_on (\<lambda>i. page_filename i (Some (format_ext f))) (set ?oks)"
    by (rule inj_onI) (rule page_filename_inj)
  then have dist: "distinct (map (\<lambda>i. page_filename i (Some (format_ext f))) ?oks)"
    by (simp add: distinct_map)
  have srt: "sorted ?oks"
    by (simp add: sorted_wrt_filter)
  from zip kept_files dist srt show ?thesis by blast
qed

text \<open>The sample document of five pages whose third page fails with a message.\<close>

theorem archive_holds_written_files_witness:
  "files (snd (convert_pdf_to_images (sample_env 5 (fails_at 2 ''boom'') nothing_denied) sample_state
       sample_pdf None ''jpeg'' 150 85 True (Some 2)))
     (Path [] [''doc_images.zip''])
   = Some (Zip [(''page_001.jpg'', Data [0]), (''page_002.jpg'', Data [1]),
                (''page_004.jpg'', Data [3]), (''page_005.jpg'', Data [4])])"
proof -
  let ?E = "sample_env 5 (fails_at 2 ''boom'') nothing_denied"
  let ?run = "convert_pdf_to_images ?E sample_state sample_pdf None ''jpeg'' 150 85 True (Some 2)"
  have "fst ?run = Inr True"
    by (simp add: eval_simps)
  then have run: "?run = (Inr True, snd ?run)"
    by (simp add: prod_eq_iff)
  have len: "fitz_len ?E sample_pdf = Inr 5"
    by (simp add: sample_simps)
  have oks: "filter (page_ok ?E sample_pdf 150 ''jpeg'' 85) [0..<5] = [0, 1, 3, 4]"
    by (simp add: page_ok_def page_result_of_def kept_def convert_page_def truthy_def lower_def
        lower_char_def sample_simps upt_conv_Cons)
  have dat: "map (page_data ?E sample_pdf 150 ''jpeg'' 85) [0, 1, 3, 4] = [[0], [1], [3], [4]]"
    by (simp add: page_data_def page_result_of_def convert_page_def lower_def lower_char_def
        sample_simps)
  have ext: "format_ext ''jpeg'' = ''jpg''"
    by (simp add: format_ext_def lower_def lower_char_def)
  have zp: "zip_path_of sample_pdf = Path [] [''doc_images.zip'']"
    by (simp add: zip_path_of_def joinpath_def parent_def stem_def name_def sample_pdf_def)
  have nms: "map (\<lambda>i. page_filename i (Some ''jpg'')) [0, 1, 3, 4]
      = [''page_001.jpg'', ''page_002.jpg'', ''page_004.jpg'', ''page_005.jpg'']"
    by (simp add: page_filename_def py_str_def fmt_03d_samples)
  have ne: "filter (page_ok ?E sample_pdf 150 ''jpeg'' 85) [0..<5] \<noteq> []"
    by (simp only: oks) simp
  from archive_holds_written_files [OF run len ne] dat nms show ?thesis
    by (simp add: oks ext zp)
qed

section \<open>An empty document\<close>

lemma convert_pages_empty:
  assumes "pool_size_ok E nw"
  shows "convert_pages E t pdf od f d q cz nw 0 = (Inr True, say [MsgDone 0 od] t)"
proof -
  have "pool_events E (build_tasks pdf 0 d f q) = []"
    by (simp add: pool_events_def build_tasks_def as_completed_def)
  then show ?thesis
    by (simp add: convert_pages_eq [OF assms] save_images_Nil say_Nil archive_stage_skip)
qed

text \<open>
  C8. For a document that opens with 0 pages, when the quality is valid, the source
  exists, the output directory exists or can be created and the pool can be created
  (worker count absent or at least 1), the process exits with status 0; the output
  directory exists afterwards, no file of the file system is created or changed (no page
  file, and no archive even with archiving enabled), and no page is processed: the
  program prints the information message and the summary for 0 pages only.
\<close>

theorem empty_document:
  assumes q: "1 \<le> arg_quality a \<and> arg_quality a \<le> 100"
    and ex: "exists s (arg_pdf_file a)"
    and dir: "can_mkdir E s (chosen_output_dir (arg_pdf_file a) (arg_output a))"
    and len: "fitz_len E (arg_pdf_file a) = Inr 0"
    and pool: "pool_size_ok E (arg_workers a)"
  shows "fst (main E s a) = 0
    \<and> files (snd (main E s a)) = files s
    \<and> dirs (snd (main E s a)) = insert (chosen_output_dir (arg_pdf_file a) (arg_output a)) (dirs s)
    \<and> progress_count (snd (main E s a)) = progress_count s
    \<and> out (snd (main E s a)) = out (after_dpi_check a s) @
         [info_message E (arg_pdf_file a) (arg_format a) (arg_dpi a) (arg_quality a) (arg_workers a) 0,
          MsgDone 0 (chosen_output_dir (arg_pdf_file a) (arg_output a))]"
proof -
  let ?t = "after_dpi_check a s"
  let ?od = "chosen_output_dir (arg_pdf_file a) (arg_output a)"
  from dir have "can_mkdir E ?t ?od" by (simp add: after_dpi_check_fields)
  then obtain s1 where mk: "mkdir_exist_ok E ?t ?od = Inr s1"
    using can_mkdir_Inr by blast
  note m = mkdir_exist_ok_Inr [OF mk]
  from ex have ex': "exists ?t (arg_pdf_file a)" by (simp add: after_dpi_check_fields)
  have run: "convert_pdf_to_images E ?t (arg_pdf_file a) (arg_output a) (arg_format a) (arg_dpi a)
      (arg_quality a) (\<not> arg_no_zip a) (arg_workers a)
    = (Inr True, say [MsgDone 0 ?od]
        (say [info_message E (arg_pdf_file a) (arg_format a) (arg_dpi a) (arg_quality a) (arg_workers a) 0] s1))"
    by (simp add: convert_pdf_to_images_eq [OF ex' mk len] convert_pages_empty [OF pool])
  have main: "main E s a = (0, say [MsgDone 0 ?od]
        (say [info_message E (arg_pdf_file a) (arg_format a) (arg_dpi a) (arg_quality a) (arg_workers a) 0] s1))"
    using q by (simp add: main_eq run)
  have "progress_count (say [MsgDone 0 ?od]
        (say [info_message E (arg_pdf_file a) (arg_format a) (arg_dpi a) (arg_quality a) (arg_workers a) 0] s1))
      = progress_count s1"
    by (simp add: progress_count_say info_message_def)
  also have "\<dots> = progress_count s"
    using m after_dpi_check_fields(3) [of a s] by (simp add: progress_count_def)
  finally show ?thesis
    using m by (simp add: main say_def after_dpi_check_fields)
qed

text \<open>An empty \<^verbatim>\<open>doc.pdf\<close> with the default arguments, archiving enabled.\<close>

theorem empty_document_witness:
  "fst (main (sample_env 0 no_failure nothing_denied) sample_state sample_args) = 0
   \<and> files (snd (main (sample_env 0 no_failure nothing_denied) sample_state sample_args))
       = [sample_pdf \<mapsto> Data []]
   \<and> dirs (snd (main (sample_env 0 no_failure nothing_denied) sample_state sample_args))
       = {Path [] [''doc_images''], Path [] []}
   \<and> out (snd (main (sample_env 0 no_failure nothing_denied) sample_state sample_args))
       = [MsgInfo ''doc.pdf'' 0 ''JPEG'' 150 (Some 85) (Some 2), MsgDone 0 (Path [] [''doc_images''])]"
proof -
  let ?E = "sample_env 0 no_failure nothing_denied"
  have q: "1 \<le> arg_quality sample_args \<and> arg_quality sample_args \<le> 100"
    by (simp add: sample_args_def)
  have ex: "exists sample_state (arg_pdf_file sample_args)"
    by (simp add: exists_def sample_simps)
  have od: "chosen_output_dir (arg_pdf_file sample_args) (arg_output sample_args) = Path [] [''doc_images'']"
    by (simp add: chosen_output_dir_def default_output_dir_def joinpath_def parent_def stem_def
        name_def sample_simps)
  have dir: "can_mkdir ?E sample_state (chosen_output_dir (arg_pdf_file sample_args) (arg_output sample_args))"
    unfolding od by (simp add: can_mkdir_def parent_def sample_simps)
  have len: "fitz_len ?E (arg_pdf_file sample_args) = Inr 0"
    by (simp add: sample_simps)
  have pool: "pool_size_ok ?E (arg_workers sample_args)"
    by (simp add: pool_size_ok_def sample_simps)
  have info: "info_message ?E (arg_pdf_file sample_args) (arg_format sample_args) (arg_dpi sample_args)
      (arg_quality sample_args) (arg_workers sample_args) 0
    = MsgInfo ''doc.pdf'' 0 ''JPEG'' 150 (Some 85) (Some 2)"
    by (simp add: info_message_def name_def upper_def upper_char_def lower_def lower_char_def
        sample_simps)
  have dpi: "after_dpi_check sample_args sample_state = sample_state"
    by (simp add: after_dpi_check_def sample_args_def)
  from empty_document [OF q ex dir len pool] show ?thesis
    by (simp add: od info dpi) (simp add: sample_state_def)
qed

section \<open>Exit status\<close>







section \<open>A failure of the archive\<close>


lemma after_dpi_check_no_zip [simp]:
  "after_dpi_check (a\<lparr>arg_no_zip := z\<rparr>) s = after_dpi_check a s"
  by (simp add: after_dpi_check_def)




section \<open>Runs in which nothing fails\<close>

lemma open_wb_writable:
  "writable E (dirs s) p \<Longrightarrow> open_wb E s p = Inr (s\<lparr>files := (files s)(p \<mapsto> Data [])\<rparr>)"
  by (simp add: open_wb_def writable_def)

lemma open_wb_not_writable:
  "\<not> writable E (dirs s) p \<Longrightarrow> \<exists>e. open_wb E s p = Inl e"
  by (auto simp: open_wb_def writable_def)

lemma open_wb_Inr_writable: "open_wb E s p = Inr s1 \<Longrightarrow> writable E (dirs s) p"
  by (simp add: writable_def open_wb_Inr)

lemma open_wb_Inl_not_writable: "open_wb E s p = Inl e \<Longrightarrow> \<not> writable E (dirs s) p"
  by (auto simp: open_wb_def writable_def split: if_splits)

lemma write_pages_succeeds:
  assumes "\<forall>r \<in> set rs. fst (snd r) \<noteq> None
      \<and> writable E (dirs s) (joinpath od (page_filename (fst r) ext))"
  shows "\<exists>sv' s'. write_pages E s od ext rs sv = (Inr sv', s')"
  using assms
proof (induction rs arbitrary: s sv)
  case Nil
  show ?case by simp
next
  case (Cons r rs)
  obtain n dat x where r: "r = (n, dat, x)" by (cases r) auto
  let ?p = "joinpath od (page_filename n ext)"
  from Cons.prems obtain d where d: "dat = Some d" and w: "writable E (dirs s) ?p"
    by (auto simp: r)
  let ?s1 = "s\<lparr>files := (files s)(?p \<mapsto> Data d)\<rparr>"
  have step: "write_pages E s od ext (r # rs) sv = write_pages E ?s1 od ext rs (sv @ [?p])"
    unfolding r write_pages_Cons open_wb_writable [OF w] d by simp
  have "\<forall>r \<in> set rs. fst (snd r) \<noteq> None
      \<and> writable E (dirs ?s1) (joinpath od (page_filename (fst r) ext))"
    using Cons.prems by simp
  from Cons.IH [OF this] show ?case by (simp only: step)
qed

lemma write_pages_writable:
  "write_pages E s od ext rs sv = (Inr sv', s') \<Longrightarrow> r \<in> set rs \<Longrightarrow>
     writable E (dirs s) (joinpath od (page_filename (fst r) ext))"
proof (induction rs arbitrary: s sv)
  case Nil
  then show ?case by simp
next
  case (Cons r0 rs)
  obtain n dat x where r0: "r0 = (n, dat, x)" by (cases r0) auto
  let ?p = "joinpath od (page_filename n ext)"
  show ?case
  proof (cases "open_wb E s ?p")
    case (Inl e)
    have "write_pages E s od ext (r0 # rs) sv = (Inl e, s)"
      unfolding r0 write_pages_Cons Inl by simp
    with Cons.prems(1) show ?thesis by simp
  next
    case (Inr t)
    note w0 = open_wb_Inr_writable [OF Inr]
    show ?thesis
    proof (cases dat)
      case None
      have "write_pages E s od ext (r0 # rs) sv
          = (Inl TypeError, s\<lparr>files := (files s)(?p \<mapsto> Data [])\<rparr>)"
        unfolding r0 write_pages_Cons Inr None by simp
      with Cons.prems(1) show ?thesis by simp
    next
      case (Some d)
      have "write_pages E s od ext (r0 # rs) sv
          = write_pages E (s\<lparr>files := (files s)(?p \<mapsto> Data d)\<rparr>) od ext rs (sv @ [?p])"
        unfolding r0 write_pages_Cons Inr Some by simp
      with Cons.prems(1)
      have rest: "write_pages E (s\<lparr>files := (files s)(?p \<mapsto> Data d)\<rparr>) od ext rs (sv @ [?p])
          = (Inr sv', s')" by simp
      show ?thesis
      proof (cases "r = r0")
        case True
        with w0 show ?thesis by (simp add: r0)
      next
        case False
        with Cons.prems(2) have "r \<in> set rs" by simp
        from Cons.IH [OF rest this] show ?thesis by simp
      qed
    qed
  qed
qed

lemma page_rendered_entry:
  assumes "page_rendered E p d f q i"
  shows "page_entry E p d f q i = (i, Some (page_data E p d f q i), Some (format_ext f))"
    and "page_ok E p d f q i"
proof -
  from assms obtain dd where dd: "fst (snd (page_entry E p d f q i)) = Some dd"
    by (auto simp: page_rendered_def page_entry_def entry_of_def)
  from page_entry_Some [OF dd]
  show "page_entry E p d f q i = (i, Some (page_data E p d f q i), Some (format_ext f))"
    by simp
  from assms show "page_ok E p d f q i"
    by (auto simp: page_rendered_def page_ok_def page_result_of_def kept_def convert_page_def
        truthy_def split: sum.splits if_splits)
qed

lemma page_entry_rendered:
  "fst (snd (page_entry E p d f q i)) \<noteq> None \<Longrightarrow> page_rendered E p d f q i"
  by (simp add: page_rendered_def page_entry_def entry_of_def)

lemma save_images_succeeds:
  assumes "\<forall>i \<in> set oks. page_rendered E pdf d f q i
      \<and> writable E (dirs s) (joinpath od (page_filename i (Some (format_ext f))))"
  shows "\<exists>saved sC. save_images E s od (map (page_entry E pdf d f q) oks) = (Inr saved, sC)"
proof (cases oks)
  case Nil
  then show ?thesis by (simp add: save_images_Nil)
next
  case (Cons i0 rest)
  let ?rs = "map (page_entry E pdf d f q) oks"
  from assms have "page_rendered E pdf d f q i0" by (simp add: Cons)
  from page_rendered_entry(1) [OF this]
  have ext: "chosen_ext ?rs = Some (format_ext f)"
    by (simp add: chosen_ext_def Cons)
  have "\<forall>r \<in> set ?rs. fst (snd r) \<noteq> None
      \<and> writable E (dirs s) (joinpath od (page_filename (fst r) (Some (format_ext f))))"
  proof
    fix r assume "r \<in> set ?rs"
    then obtain i where i: "i \<in> set oks" and r: "r = page_entry E pdf d f q i" by auto
    from assms i have "page_rendered E pdf d f q i"
      and w: "writable E (dirs s) (joinpath od (page_filename i (Some (format_ext f))))"
      by simp_all
    from page_rendered_entry(1) [OF this(1)] w
    show "fst (snd r) \<noteq> None
      \<and> writable E (dirs s) (joinpath od (page_filename (fst r) (Some (format_ext f))))"
      by (simp add: r)
  qed
  from write_pages_succeeds [OF this, of "[]"] show ?thesis
    unfolding save_images_def Let_def ext .
qed


lemma archive_stage_open_fails:
  assumes "saved \<noteq> []" and "open_wb E s (zip_path_of pdf) = Inl e"
  shows "archive_stage E s pdf od True saved = (Inl e, say [MsgZipStart] s)"
proof -
  have "open_wb E (say [MsgZipStart] s) (zip_path_of pdf) = Inl e"
    using assms(2) by (auto simp: open_wb_def say_def split: if_splits)
  then have "write_zip E (say [MsgZipStart] s) (zip_path_of pdf) saved = (Inl e, say [MsgZipStart] s)"
    by (simp add: write_zip_def)
  with assms(1) show ?thesis by (simp add: archive_stage_def)
qed

lemma archive_stage_succeeds:
  assumes w: "writable E (dirs s) (zip_path_of pdf)"
    and "zip_path_of pdf \<notin> set saved"
    and "\<forall>g \<in> set saved. g \<notin> dirs s \<and> files s g \<noteq> None"
  shows "\<exists>s'. archive_stage E s pdf od cz saved = (Inr True, s')"
proof (cases "cz \<and> saved \<noteq> []")
  case False
  then show ?thesis by (simp add: archive_stage_skip)
next
  case True
  let ?zp = "zip_path_of pdf"
  let ?t = "say [MsgZipStart] s"
  let ?t2 = "?t\<lparr>files := (files ?t)(?zp \<mapsto> Zip [])\<rparr>"
  let ?c = "\<lambda>p. case files s p of None \<Rightarrow> Data [] | Some x \<Rightarrow> x"
  from w have "writable E (dirs ?t) ?zp" by (simp add: say_def)
  from open_wb_writable [OF this]
  have wz: "write_zip E ?t ?zp saved = zip_members ?t2 ?zp [] saved"
    by (simp add: write_zip_def)
  have "\<forall>g \<in> set saved. g \<notin> dirs ?t2 \<and> files ?t2 g = Some (?c g)"
    using assms(2,3) by (auto simp: say_def)
  moreover have "files ?t2 ?zp = Some (Zip [])" by simp
  ultimately obtain s'' where "zip_members ?t2 ?zp [] saved = (Inr (), s'')"
    using zip_members_ok [OF assms(2), of ?t2 ?c "[]"] by blast
  with True wz show ?thesis by (simp add: archive_stage_def)
qed

lemma archive_stage_True_writable:
  assumes "archive_stage E s pdf od True saved = (Inr True, s')" and "saved \<noteq> []"
  shows "writable E (dirs s) (zip_path_of pdf)"
proof (rule ccontr)
  assume "\<not> writable E (dirs s) (zip_path_of pdf)"
  from open_wb_not_writable [OF this] obtain e where "open_wb E s (zip_path_of pdf) = Inl e" ..
  from archive_stage_open_fails [OF assms(2) this, of od] assms(1) show False by simp
qed

lemma joinpath_not_self: "joinpath p a \<noteq> p"
  by (cases p) (simp add: joinpath_def)

lemma convert_reaches_archive:
  assumes len: "fitz_len E pdf = Inr P"
    and wc: "writes_complete E s pdf (chosen_output_dir pdf od) f d q nw P"
  shows "\<exists>sW. convert_pdf_to_images E s pdf od f d q cz nw
        = archive_stage E sW pdf (chosen_output_dir pdf od) cz
            (map (\<lambda>i. joinpath (chosen_output_dir pdf od) (page_filename i (Some (format_ext f))))
               (filter (page_ok E pdf d f q) [0..<P]))
      \<and> dirs sW = insert (chosen_output_dir pdf od) (dirs s)
      \<and> progress_count sW = progress_count s + P
      \<and> (\<forall>i \<in> set (filter (page_ok E pdf d f q) [0..<P]).
            files sW (joinpath (chosen_output_dir pdf od) (page_filename i (Some (format_ext f))))
              = Some (Data (page_data E pdf d f q i))
            \<and> joinpath (chosen_output_dir pdf od) (page_filename i (Some (format_ext f))) \<notin> dirs sW)
      \<and> (\<forall>p. p \<notin> (\<lambda>i. joinpath (chosen_output_dir pdf od) (page_filename i (Some (format_ext f))))
                  ` set (filter (page_ok E pdf d f q) [0..<P])
            \<longrightarrow> files sW p = files s p)"
proof -
  let ?od = "chosen_output_dir pdf od"
  let ?oks = "filter (page_ok E pdf d f q) [0..<P]"
  let ?pth = "\<lambda>i. joinpath ?od (page_filename i (Some (format_ext f)))"
  from wc have ex: "exists s pdf" and cm: "can_mkdir E s ?od" and pool: "pool_size_ok E nw"
    and pages: "\<forall>i < P. page_ok E pdf d f q i \<longrightarrow>
        page_rendered E pdf d f q i \<and> writable E (insert ?od (dirs s)) (?pth i)"
    by (simp_all add: writes_complete_def)
  from can_mkdir_Inr [OF cm] obtain s1 where mk: "mkdir_exist_ok E s ?od = Inr s1" ..
  note m = mkdir_exist_ok_Inr [OF mk]
  let ?t = "say [info_message E pdf f d q nw P] s1"
  let ?t1 = "say (pool_events E (build_tasks pdf P d f q)) ?t"
  have d1: "dirs ?t1 = insert ?od (dirs s)" using m by (simp add: say_def)
  have "\<forall>i \<in> set ?oks. page_rendered E pdf d f q i \<and> writable E (dirs ?t1) (?pth i)"
    using pages by (simp add: d1)
  from save_images_succeeds [OF this] obtain saved sC where
    sv: "save_images E ?t1 ?od (map (page_entry E pdf d f q) ?oks) = (Inr saved, sC)"
    by blast
  have dist: "distinct ?oks" by simp
  note so = save_images_ok [OF sv dist]
  let ?sW = "say [MsgDone (length saved) ?od] sC"
  have run: "convert_pdf_to_images E s pdf od f d q cz nw
      = archive_stage E ?sW pdf ?od cz (map ?pth ?oks)"
    by (simp add: convert_pdf_to_images_eq [OF ex mk len] convert_pages_eq [OF pool] sv so(1) [symmetric])
  have dW: "dirs ?sW = insert ?od (dirs s)"
    using so(2) d1 by (simp add: say_def)
  have ni: "info_message E pdf f d q nw P \<noteq> Progress"
    by (simp add: info_message_def)
  have "progress_count ?t1 = progress_count s1 + P"
    using ni progress_pool_events [of E pdf P d f q] by (simp add: progress_count_say)
  moreover have "progress_count s1 = progress_count s"
    using m by (simp add: progress_count_def)
  moreover have "progress_count ?sW = progress_count ?t1"
    using so(3) by (simp add: progress_count_def say_def)
  ultimately have pW: "progress_count ?sW = progress_count s + P" by simp
  have fW: "\<forall>i \<in> set ?oks. files ?sW (?pth i) = Some (Data (page_data E pdf d f q i))
      \<and> ?pth i \<notin> dirs ?sW"
    using so(4) so(2) by (simp add: say_def)
  have oW: "\<forall>p. p \<notin> ?pth ` set ?oks \<longrightarrow> files ?sW p = files s p"
    using so(5) m by (simp add: so(1) say_def)
  from run dW pW fW oW show ?thesis by blast
qed

lemma convert_pages_True_conditions:
  assumes run: "convert_pages E t pdf od f d q cz nw P = (Inr True, s')"
  shows "\<forall>i \<in> set (filter (page_ok E pdf d f q) [0..<P]).
           page_rendered E pdf d f q i
           \<and> writable E (dirs t) (joinpath od (page_filename i (Some (format_ext f))))"
    and "cz \<and> filter (page_ok E pdf d f q) [0..<P] \<noteq> [] \<longrightarrow> writable E (dirs t) (zip_path_of pdf)"
proof -
  let ?oks = "filter (page_ok E pdf d f q) [0..<P]"
  let ?rs = "map (page_entry E pdf d f q) ?oks"
  let ?t1 = "say (pool_events E (build_tasks pdf P d f q)) t"
  note ok = convert_pages_True(1) [OF run]
  obtain r sC where sv: "save_images E ?t1 od ?rs = (r, sC)"
    by (cases "save_images E ?t1 od ?rs") auto
  from run sv obtain saved where r: "r = Inr saved"
    by (cases r) (auto simp: convert_pages_eq [OF ok])
  from run sv r
  have ar: "archive_stage E (say [MsgDone (length saved) od] sC) pdf od cz saved = (Inr True, s')"
    by (simp add: convert_pages_eq [OF ok])
  have dist: "distinct ?oks" by simp
  note so = save_images_ok [OF sv [unfolded r] dist]
  have w: "write_pages E ?t1 od (chosen_ext ?rs) ?rs [] = (Inr saved, sC)"
    using sv r by (simp add: save_images_def)
  show "\<forall>i \<in> set ?oks. page_rendered E pdf d f q i
      \<and> writable E (dirs t) (joinpath od (page_filename i (Some (format_ext f))))"
  proof
    fix i assume i: "i \<in> set ?oks"
    then have mem: "page_entry E pdf d f q i \<in> set ?rs" by simp
    from write_pages_data [OF w mem] have rd: "page_rendered E pdf d f q i"
      by (simp add: page_entry_rendered)
    from i obtain i0 rest where c: "?oks = i0 # rest" by (cases ?oks) auto
    then have "i0 \<in> set ?oks" by simp
    then have "page_entry E pdf d f q i0 \<in> set ?rs" by simp
    from write_pages_data [OF w this] have "page_rendered E pdf d f q i0"
      by (simp add: page_entry_rendered)
    from page_rendered_entry(1) [OF this]
    have ext: "chosen_ext ?rs = Some (format_ext f)"
      by (simp add: chosen_ext_def c)
    from write_pages_writable [OF w mem]
    have "writable E (dirs t) (joinpath od (page_filename i (Some (format_ext f))))"
      by (simp add: ext fst_page_entry say_def)
    with rd show "page_rendered E pdf d f q i
      \<and> writable E (dirs t) (joinpath od (page_filename i (Some (format_ext f))))" ..
  qed
  show "cz \<and> ?oks \<noteq> [] \<longrightarrow> writable E (dirs t) (zip_path_of pdf)"
  proof
    assume c: "cz \<and> ?oks \<noteq> []"
    then have ne: "saved \<noteq> []" by (simp add: so(1))
    from c ar have "archive_stage E (say [MsgDone (length saved) od] sC) pdf od True saved = (Inr True, s')"
      by simp
    from archive_stage_True_writable [OF this ne] show "writable E (dirs t) (zip_path_of pdf)"
      using so(2) by (simp add: say_def)
  qed
qed

section \<open>A write failure\<close>






end
